theory Spec2Isabelle
  imports Main
begin

section \<open>The grammar model (class CFG of chicker.py)\<close>

text \<open>
  A symbol and a target string are Python strings; both are modelled as \<open>string\<close>, one
  \<open>char\<close> per Python character (code points below 256). A production is a list of
  symbols. The \<open>defaultdict(list)\<close> of rules is a map from the left-hand side to the list
  of its productions, in insertion order; a key that was never written is absent.
\<close>

type_synonym symbol = string
type_synonym production = "symbol list"

record cfg =
  rules :: "symbol \<rightharpoonup> production list"
  non_terminals :: "symbol set"
  terminals :: "symbol set"

definition empty_cfg :: cfg where
  "empty_cfg = \<lparr>rules = Map.empty, non_terminals = {}, terminals = {}\<rparr>"

text \<open>
  \<open>str.isupper()\<close>: no character of the string is lowercase and at least one is
  uppercase. The character classes are those of the code points below 256.
\<close>

definition char_islower :: "char \<Rightarrow> bool" where
  "char_islower ch =
     (let n = (of_char ch :: nat) in
      (97 \<le> n \<and> n \<le> 122) \<or> n = 170 \<or> n = 181 \<or> n = 186 \<or>
      (223 \<le> n \<and> n \<le> 246) \<or> (248 \<le> n \<and> n \<le> 255))"

definition char_isupper :: "char \<Rightarrow> bool" where
  "char_isupper ch =
     (let n = (of_char ch :: nat) in
      (65 \<le> n \<and> n \<le> 90) \<or> (192 \<le> n \<and> n \<le> 214) \<or> (216 \<le> n \<and> n \<le> 222))"

definition isupper :: "string \<Rightarrow> bool" where
  "isupper s = (list_all (\<lambda>ch. \<not> char_islower ch) s \<and> list_ex char_isupper s)"

text \<open>The loop \<open>for symbol in symbols\<close> of \<open>add_rule\<close>.\<close>

fun classify_symbols :: "cfg \<Rightarrow> symbol list \<Rightarrow> cfg" where
  "classify_symbols g [] = g"
| "classify_symbols g (symbol # rest) =
     classify_symbols
       (if isupper symbol
        then g\<lparr>non_terminals := insert symbol (non_terminals g)\<rparr>
        else g\<lparr>terminals := insert symbol (terminals g)\<rparr>)
       rest"

text \<open>\<open>CFG.get_rules\<close>: \<open>self.rules.get(non_terminal, [])\<close>, a read that adds no key.\<close>

definition get_rules :: "cfg \<Rightarrow> symbol \<Rightarrow> production list" where
  "get_rules g non_terminal =
     (case rules g non_terminal of None \<Rightarrow> [] | Some ps \<Rightarrow> ps)"

text \<open>
  \<open>CFG.add_rule\<close>: the left-hand side joins the non-terminals, the production is appended
  to its list (the \<open>defaultdict\<close> starts a missing key at the empty list), and every
  symbol of the production is classified by its casing.
\<close>

definition add_rule :: "cfg \<Rightarrow> symbol \<Rightarrow> production \<Rightarrow> cfg" where
  "add_rule g non_terminal symbols =
     (let g1 = g\<lparr>non_terminals := insert non_terminal (non_terminals g)\<rparr>;
          g2 = g1\<lparr>rules := (rules g1)(non_terminal \<mapsto> get_rules g1 non_terminal @ [symbols])\<rparr>
      in classify_symbols g2 symbols)"

text \<open>A sequence of \<open>add_rule\<close> calls, applied from left to right.\<close>

fun add_rules :: "cfg \<Rightarrow> (symbol \<times> production) list \<Rightarrow> cfg" where
  "add_rules g [] = g"
| "add_rules g ((non_terminal, symbols) # calls) =
     add_rules (add_rule g non_terminal symbols) calls"

section \<open>The derivation counter (class AmbiguityChecker of chicker.py)\<close>

text \<open>
  The memo dictionary is keyed by \<open>(symbol, string)\<close> and by \<open>(tuple(production), string)\<close>.
  A Python string never equals a tuple, so the two kinds of key are the two constructors
  of a datatype.
\<close>

datatype memo_key = SymKey symbol string | ProdKey production string

record checker =
  cfg :: cfg
  memo :: "memo_key \<rightharpoonup> int"

definition new_checker :: "cfg \<Rightarrow> checker" where
  "new_checker g = \<lparr>cfg = g, memo = Map.empty\<rparr>"

definition is_terminal :: "checker \<Rightarrow> symbol \<Rightarrow> bool" where
  "is_terminal c symbol = (symbol \<notin> non_terminals (cfg c))"

text \<open>The split points of a string: the values of \<open>range(len(string) + 1)\<close>, in order.\<close>

definition split_points :: "string \<Rightarrow> nat list" where
  "split_points str = [0 ..< length str + 1]"

text \<open>
  \<open>_count_derivations\<close> and \<open>_count_prod_derivations\<close> call each other and thread the
  checker (grammar reference and memo) through every call. Nothing bounds the recursion,
  so the model carries fuel: the number of nested calls still allowed. Each of the two
  methods uses one unit per call; running out of fuel is \<open>None\<close>, and a call that is
  \<open>None\<close> for every amount of fuel is one that never returns. The two \<open>for\<close> loops are
  \<open>count_rules_loop\<close> (over the productions of a symbol) and \<open>count_split_loop\<close> (over
  the split points \<open>range(len(string) + 1)\<close>), with the running \<open>count\<close> as accumulator.
\<close>

function count_derivations ::
    "nat \<Rightarrow> symbol \<Rightarrow> string \<Rightarrow> checker \<Rightarrow> (int \<times> checker) option"
  and count_rules_loop ::
    "nat \<Rightarrow> production list \<Rightarrow> string \<Rightarrow> int \<Rightarrow> checker \<Rightarrow> (int \<times> checker) option"
  and count_prod_derivations ::
    "nat \<Rightarrow> production \<Rightarrow> string \<Rightarrow> checker \<Rightarrow> (int \<times> checker) option"
  and count_split_loop ::
    "nat \<Rightarrow> symbol \<Rightarrow> production \<Rightarrow> string \<Rightarrow> nat list \<Rightarrow> int \<Rightarrow> checker
       \<Rightarrow> (int \<times> checker) option"
where
  "count_derivations 0 symbol str c = None"
| "count_derivations (Suc fuel) symbol str c =
     (case memo c (SymKey symbol str) of
        Some v \<Rightarrow> Some (v, c)
      | None \<Rightarrow>
          if is_terminal c symbol then
            (let count = (if str = symbol then 1 else 0)
             in Some (count, c\<lparr>memo := (memo c)(SymKey symbol str \<mapsto> count)\<rparr>))
          else
            (case count_rules_loop fuel (get_rules (cfg c) symbol) str 0 c of
               None \<Rightarrow> None
             | Some (count, c') \<Rightarrow>
                 Some (count, c'\<lparr>memo := (memo c')(SymKey symbol str \<mapsto> count)\<rparr>)))"
| "count_rules_loop fuel [] str count c = Some (count, c)"
| "count_rules_loop fuel (production # ps) str count c =
     (case count_prod_derivations fuel production str c of
        None \<Rightarrow> None
      | Some (k, c') \<Rightarrow> count_rules_loop fuel ps str (count + k) c')"
| "count_prod_derivations 0 production str c = None"
| "count_prod_derivations (Suc fuel) production str c =
     (case memo c (ProdKey production str) of
        Some v \<Rightarrow> Some (v, c)
      | None \<Rightarrow>
          (case production of
             [] \<Rightarrow>
               (let count = (if str = [] then 1 else 0)
                in Some (count, c\<lparr>memo := (memo c)(ProdKey production str \<mapsto> count)\<rparr>))
           | first # rest \<Rightarrow>
               (case count_split_loop fuel first rest str (split_points str) 0 c of
                  None \<Rightarrow> None
                | Some (count, c') \<Rightarrow>
                    Some (count, c'\<lparr>memo := (memo c')(ProdKey production str \<mapsto> count)\<rparr>))))"
| "count_split_loop fuel first rest str [] count c = Some (count, c)"
| "count_split_loop fuel first rest str (i # js) count c =
     (case count_derivations fuel first (take i str) c of
        None \<Rightarrow> None
      | Some (first_count, c1) \<Rightarrow>
          if first_count > 0 then
            (case count_prod_derivations fuel rest (drop i str) c1 of
               None \<Rightarrow> None
             | Some (rest_count, c2) \<Rightarrow>
                 count_split_loop fuel first rest str js (count + first_count * rest_count) c2)
          else count_split_loop fuel first rest str js count c1)"
  by pat_completeness auto

text \<open>
  The definition is total because of the fuel: it drops at every call of one of the two
  methods, and inside a loop the list of remaining iterations shrinks.
\<close>

termination
  by (relation "inv_image (less_than <*lex*> less_than <*lex*> less_than)
        (\<lambda>x. case x of
           Inl (Inl (fuel, symbol, str, c)) \<Rightarrow> (fuel, 0::nat, 0::nat)
         | Inl (Inr (fuel, ps, str, count, c)) \<Rightarrow> (fuel, 1, length ps)
         | Inr (Inl (fuel, production, str, c)) \<Rightarrow> (fuel, 0, 0)
         | Inr (Inr (fuel, first, rest, str, js, count, c)) \<Rightarrow> (fuel, 1, length js))")
     auto

text \<open>
  What \<open>check\<close> prints, line by line, as data: the error line, the header line, the
  number of parse trees and one of the three result lines.
\<close>

datatype message =
    ErrNotNonTerminal symbol
  | Checking string symbol
  | NumParseTrees int
  | ResultAmbiguous
  | ResultNotAmbiguous
  | ResultCannotDerive

text \<open>
  \<open>check\<close>: clears the memo, rejects a start symbol that is not a non-terminal with
  \<open>(False, 0)\<close>, and otherwise counts and classifies. The result is the returned pair, the
  lines printed, and the checker afterwards.
\<close>

definition check ::
    "nat \<Rightarrow> symbol \<Rightarrow> string \<Rightarrow> checker \<Rightarrow> ((bool \<times> int) \<times> message list \<times> checker) option"
where
  "check fuel start_symbol str c0 =
     (let c = c0\<lparr>memo := Map.empty\<rparr> in
      if start_symbol \<notin> non_terminals (cfg c) then
        Some ((False, 0), [ErrNotNonTerminal start_symbol], c)
      else
        (case count_derivations fuel start_symbol str c of
           None \<Rightarrow> None
         | Some (count, c') \<Rightarrow>
             Some ((count > 1, count),
                   [Checking str start_symbol, NumParseTrees count,
                    if count > 1 then ResultAmbiguous
                    else if count = 1 then ResultNotAmbiguous
                    else ResultCannotDerive],
                   c')))"

section \<open>Example grammars and auxiliary notions\<close>

text \<open>
  Grammars used as concrete inputs, each built the way a caller builds one: by \<open>add_rule\<close>
  calls on an empty \<open>CFG()\<close>. \<open>G_ab\<close> is \<open>S -> a S b | epsilon\<close>, \<open>G_rec\<close> is
  \<open>S -> a S | a\<close>, \<open>G_SS\<close> is \<open>S -> S S | a\<close>, and in \<open>G_rhs_only\<close> the non-terminal
  \<open>A\<close> occurs on a right-hand side only.
\<close>

definition G_ab :: cfg where
  "G_ab = add_rules empty_cfg [(''S'', [''a'', ''S'', ''b'']), (''S'', [])]"
definition G_rec :: cfg where
  "G_rec = add_rules empty_cfg [(''S'', [''a'', ''S'']), (''S'', [''a''])]"
definition G_SS :: cfg where
  "G_SS = add_rules empty_cfg [(''S'', [''S'', ''S'']), (''S'', [''a''])]"
definition G_rhs_only :: cfg where
  "G_rhs_only = add_rules empty_cfg [(''S'', [''A'', ''b''])]"

text \<open>A memo all of whose stored counts are non-negative.\<close>

definition memo_nonneg :: "checker \<Rightarrow> bool" where
  "memo_nonneg c = (\<forall>k v. memo c k = Some v \<longrightarrow> 0 \<le> v)"

text \<open>
  The grammar invariant in the spec's words: every registered left-hand side is a
  non-terminal, and every symbol of every registered production is in exactly one of the
  two symbol sets. \<open>cased_invariant\<close> is the stronger fact behind it: the non-terminals
  are uppercase, the terminals are not, and every symbol of a production is classified.
\<close>

definition grammar_invariant :: "cfg \<Rightarrow> bool" where
  "grammar_invariant g =
     (\<forall>non_terminal \<in> dom (rules g).
        non_terminal \<in> non_terminals g \<and>
        (\<forall>production \<in> set (get_rules g non_terminal). \<forall>symbol \<in> set production.
           (symbol \<in> non_terminals g) \<noteq> (symbol \<in> terminals g)))"

definition cased_invariant :: "cfg \<Rightarrow> bool" where
  "cased_invariant g =
     ((\<forall>symbol \<in> non_terminals g. isupper symbol) \<and>
      (\<forall>symbol \<in> terminals g. \<not> isupper symbol) \<and>
      dom (rules g) \<subseteq> non_terminals g \<and>
      (\<forall>non_terminal \<in> dom (rules g). \<forall>production \<in> set (get_rules g non_terminal).
         set production \<subseteq> non_terminals g \<union> terminals g))"

section \<open>The recursion without the memo\<close>

text \<open>
  The same two methods and their two loops with every read and write of the memo taken
  out: the grammar is a parameter, only the count is returned. The pruning of the split
  loop (no call for the rest when the first symbol counts 0) and the fuel are kept, so a
  call of this recursion returns exactly when the memoized one does.
\<close>

function plain_count :: "cfg \<Rightarrow> nat \<Rightarrow> symbol \<Rightarrow> string \<Rightarrow> int option"
  and plain_rules_loop :: "cfg \<Rightarrow> nat \<Rightarrow> production list \<Rightarrow> string \<Rightarrow> int \<Rightarrow> int option"
  and plain_prod_count :: "cfg \<Rightarrow> nat \<Rightarrow> production \<Rightarrow> string \<Rightarrow> int option"
  and plain_split_loop ::
    "cfg \<Rightarrow> nat \<Rightarrow> symbol \<Rightarrow> production \<Rightarrow> string \<Rightarrow> nat list \<Rightarrow> int \<Rightarrow> int option"
where
  "plain_count g 0 symbol str = None"
| "plain_count g (Suc fuel) symbol str =
     (if symbol \<notin> non_terminals g then Some (if str = symbol then 1 else 0)
      else plain_rules_loop g fuel (get_rules g symbol) str 0)"
| "plain_rules_loop g fuel [] str count = Some count"
| "plain_rules_loop g fuel (production # ps) str count =
     (case plain_prod_count g fuel production str of
        None \<Rightarrow> None
      | Some k \<Rightarrow> plain_rules_loop g fuel ps str (count + k))"
| "plain_prod_count g 0 production str = None"
| "plain_prod_count g (Suc fuel) [] str = Some (if str = [] then 1 else 0)"
| "plain_prod_count g (Suc fuel) (first # rest) str =
     plain_split_loop g fuel first rest str (split_points str) 0"
| "plain_split_loop g fuel first rest str [] count = Some count"
| "plain_split_loop g fuel first rest str (i # js) count =
     (case plain_count g fuel first (take i str) of
        None \<Rightarrow> None
      | Some first_count \<Rightarrow>
          if first_count > 0 then
            (case plain_prod_count g fuel rest (drop i str) of
               None \<Rightarrow> None
             | Some rest_count \<Rightarrow>
                 plain_split_loop g fuel first rest str js (count + first_count * rest_count))
          else plain_split_loop g fuel first rest str js count)"
  by pat_completeness auto

termination
  by (relation "inv_image (less_than <*lex*> less_than <*lex*> less_than)
        (\<lambda>x. case x of
           Inl (Inl (g, fuel, symbol, str)) \<Rightarrow> (fuel, 0::nat, 0::nat)
         | Inl (Inr (g, fuel, ps, str, count)) \<Rightarrow> (fuel, 1, length ps)
         | Inr (Inl (g, fuel, production, str)) \<Rightarrow> (fuel, 0, 0)
         | Inr (Inr (g, fuel, first, rest, str, js, count)) \<Rightarrow> (fuel, 1, length js))")
     auto

text \<open>
  A memo is sound for a grammar when each entry holds a count that the recursion without
  the memo returns for the entry's key, with some amount of fuel.
\<close>

definition memo_sound :: "cfg \<Rightarrow> (memo_key \<rightharpoonup> int) \<Rightarrow> bool" where
  "memo_sound g m =
     ((\<forall>symbol str v. m (SymKey symbol str) = Some v \<longrightarrow>
         (\<exists>fuel. plain_count g fuel symbol str = Some v)) \<and>
      (\<forall>production str v. m (ProdKey production str) = Some v \<longrightarrow>
         (\<exists>fuel. plain_prod_count g fuel production str = Some v)))"

section \<open>Derivations as trees: the reference count\<close>

text \<open>
  The reference of the spec, "the number of distinct production-choice/split-point
  sequences that derive s", without any recursion scheme of the code: a derivation is a
  tree. A leaf is a symbol the grammar treats as terminal and yields the symbol's own
  text; a node is a non-terminal together with the index of the production chosen for it
  (two equal productions at different indices are different choices) and one subtree per
  symbol of that production. The split points of a derivation are the lengths of the
  yields of the subtrees, so two derivations differ exactly when their trees differ.
\<close>

datatype tree = Leaf symbol | Node symbol nat "tree list"

fun root :: "tree \<Rightarrow> symbol" where
  "root (Leaf symbol) = symbol"
| "root (Node symbol k ts) = symbol"

fun yield :: "tree \<Rightarrow> string" where
  "yield (Leaf symbol) = symbol"
| "yield (Node symbol k ts) = concat (map yield ts)"

fun valid :: "cfg \<Rightarrow> tree \<Rightarrow> bool" where
  "valid g (Leaf symbol) = (symbol \<notin> non_terminals g)"
| "valid g (Node symbol k ts) =
     (symbol \<in> non_terminals g \<and> k < length (get_rules g symbol) \<and>
      map root ts = get_rules g symbol ! k \<and> list_all (valid g) ts)"

text \<open>The derivations of a string from a symbol, and of a string from a production.\<close>

definition derivations :: "cfg \<Rightarrow> symbol \<Rightarrow> string \<Rightarrow> tree set" where
  "derivations g symbol str = {t. valid g t \<and> root t = symbol \<and> yield t = str}"

definition prod_derivations :: "cfg \<Rightarrow> production \<Rightarrow> string \<Rightarrow> tree list set" where
  "prod_derivations g production str =
     {ts. list_all (valid g) ts \<and> map root ts = production \<and> concat (map yield ts) = str}"

definition reference_count :: "cfg \<Rightarrow> symbol \<Rightarrow> string \<Rightarrow> int" where
  "reference_count g symbol str = int (card (derivations g symbol str))"

definition reference_prod_count :: "cfg \<Rightarrow> production \<Rightarrow> string \<Rightarrow> int" where
  "reference_prod_count g production str = int (card (prod_derivations g production str))"

text \<open>
  Left recursion, as the spec describes it: a non-terminal reaches itself through
  productions, each time at the first symbol or at a symbol all of whose predecessors in
  the production can derive the empty string.
\<close>

definition nullable :: "cfg \<Rightarrow> symbol \<Rightarrow> bool" where
  "nullable g symbol = (derivations g symbol [] \<noteq> {})"

definition left_corner :: "cfg \<Rightarrow> (symbol \<times> symbol) set" where
  "left_corner g =
     {(non_terminal, symbol). non_terminal \<in> non_terminals g \<and>
        (\<exists>production \<in> set (get_rules g non_terminal). \<exists>k < length production.
           production ! k = symbol \<and> (\<forall>j < k. nullable g (production ! j)))}"

definition left_recursive :: "cfg \<Rightarrow> bool" where
  "left_recursive g = (\<exists>non_terminal. (non_terminal, non_terminal) \<in> (left_corner g)\<^sup>+)"

text \<open>
  The recursion without the memo agrees with the reference on a symbol (on a production)
  and a string when the set of derivations is finite and the recursion returns its size,
  given enough fuel.
\<close>

definition count_agrees :: "cfg \<Rightarrow> symbol \<Rightarrow> string \<Rightarrow> bool" where
  "count_agrees g symbol str =
     (finite (derivations g symbol str) \<and>
      (\<exists>fuel. plain_count g fuel symbol str = Some (reference_count g symbol str)))"

definition prod_count_agrees :: "cfg \<Rightarrow> production \<Rightarrow> string \<Rightarrow> bool" where
  "prod_count_agrees g production str =
     (finite (prod_derivations g production str) \<and>
      (\<exists>fuel. plain_prod_count g fuel production str =
                Some (reference_prod_count g production str)))"

section \<open>Recursive non-terminals\<close>

text \<open>
  A non-terminal uses the symbols of its productions; it is recursive when it can reach
  itself through that relation. \<open>G_alt\<close> is \<open>S -> A | B\<close>, \<open>A -> a\<close>, \<open>B -> a\<close>.
\<close>

definition uses :: "cfg \<Rightarrow> (symbol \<times> symbol) set" where
  "uses g =
     {(non_terminal, symbol). non_terminal \<in> non_terminals g \<and>
        (\<exists>production \<in> set (get_rules g non_terminal). symbol \<in> set production)}"

definition recursive :: "cfg \<Rightarrow> symbol \<Rightarrow> bool" where
  "recursive g non_terminal = ((non_terminal, non_terminal) \<in> (uses g)\<^sup>+)"

definition G_alt :: cfg where
  "G_alt = add_rules empty_cfg
     [(''S'', [''A'']), (''S'', [''B'']), (''A'', [''a'']), (''B'', [''a''])]"

text \<open>
  What \<open>add_rule\<close> guarantees about every registered production: its left-hand side is
  a non-terminal and so is each of its uppercase symbols.
\<close>

definition registered_classified :: "cfg \<Rightarrow> bool" where
  "registered_classified g =
     (\<forall>non_terminal. \<forall>production \<in> set (get_rules g non_terminal).
        non_terminal \<in> non_terminals g \<and>
        (\<forall>symbol \<in> set production. isupper symbol \<longrightarrow> symbol \<in> non_terminals g))"

section \<open>Inversion of the counter's equations\<close>

lemmas counts_induct = count_derivations_count_rules_loop_count_prod_derivations_count_split_loop.induct

lemma count_derivations_SucE:
  assumes "count_derivations (Suc fuel) symbol str c = Some (v, c')"
  obtains (hit) "memo c (SymKey symbol str) = Some v" "c' = c"
  | (terminal) "memo c (SymKey symbol str) = None" "is_terminal c symbol"
      "v = (if str = symbol then 1 else 0)"
      "c' = c\<lparr>memo := (memo c)(SymKey symbol str \<mapsto> v)\<rparr>"
  | (rules) c1 where "memo c (SymKey symbol str) = None" "\<not> is_terminal c symbol"
      "count_rules_loop fuel (get_rules (cfg c) symbol) str 0 c = Some (v, c1)"
      "c' = c1\<lparr>memo := (memo c1)(SymKey symbol str \<mapsto> v)\<rparr>"
  using assms by (auto split: option.splits if_splits)

lemma count_rules_loop_ConsE:
  assumes "count_rules_loop fuel (production # ps) str count c = Some r"
  obtains k c1 where "count_prod_derivations fuel production str c = Some (k, c1)"
      "count_rules_loop fuel ps str (count + k) c1 = Some r"
  using assms by (auto split: option.splits)

lemma count_prod_derivations_NilE:
  assumes "count_prod_derivations (Suc fuel) [] str c = Some (v, c')"
  obtains (hit) "memo c (ProdKey [] str) = Some v" "c' = c"
  | (epsilon) "memo c (ProdKey [] str) = None"
      "v = (if str = [] then 1 else 0)"
      "c' = c\<lparr>memo := (memo c)(ProdKey [] str \<mapsto> v)\<rparr>"
  using assms by (auto split: option.splits if_splits)

lemma count_prod_derivations_ConsE:
  assumes "count_prod_derivations (Suc fuel) (first # rest) str c = Some (v, c')"
  obtains (hit) "memo c (ProdKey (first # rest) str) = Some v" "c' = c"
  | (split) c1 where "memo c (ProdKey (first # rest) str) = None"
      "count_split_loop fuel first rest str (split_points str) 0 c = Some (v, c1)"
      "c' = c1\<lparr>memo := (memo c1)(ProdKey (first # rest) str \<mapsto> v)\<rparr>"
  using assms by (auto split: option.splits)

lemma count_split_loop_ConsE:
  assumes "count_split_loop fuel first rest str (i # js) count c = Some r"
  obtains (recurse) first_count c1 rest_count c2 where
      "count_derivations fuel first (take i str) c = Some (first_count, c1)" "0 < first_count"
      "count_prod_derivations fuel rest (drop i str) c1 = Some (rest_count, c2)"
      "count_split_loop fuel first rest str js (count + first_count * rest_count) c2 = Some r"
  | (pruned) first_count c1 where
      "count_derivations fuel first (take i str) c = Some (first_count, c1)" "\<not> 0 < first_count"
      "count_split_loop fuel first rest str js count c1 = Some r"
  using assms by (auto split: option.splits if_splits)

lemma counts_cfg:
  "count_derivations fuel symbol str c = Some (v, c') \<Longrightarrow> cfg c' = cfg c"
  "count_rules_loop fuel ps str count c = Some (v, c') \<Longrightarrow> cfg c' = cfg c"
  "count_prod_derivations fuel production str c = Some (v, c') \<Longrightarrow> cfg c' = cfg c"
  "count_split_loop fuel first rest str js count c = Some (v, c') \<Longrightarrow> cfg c' = cfg c"
proof (induction fuel symbol str c and fuel ps str count c and fuel production str c
         and fuel first rest str js count c arbitrary: v c' and v c' and v c' and v c'
         rule: counts_induct)
  case (1 symbol str c)
  then show ?case by simp
next
  case (2 fuel symbol str c)
  from "2.prems" show ?case
  proof (cases rule: count_derivations_SucE)
    case hit
    then show ?thesis by simp
  next
    case terminal
    then show ?thesis by simp
  next
    case (rules c1)
    with "2.IH" have "cfg c1 = cfg c" by blast
    with rules show ?thesis by simp
  qed
next
  case (3 fuel str count c)
  then show ?case by simp
next
  case (4 fuel production ps str count c)
  from "4.prems" obtain k c1 where
    a: "count_prod_derivations fuel production str c = Some (k, c1)"
    and b: "count_rules_loop fuel ps str (count + k) c1 = Some (v, c')"
    by (rule count_rules_loop_ConsE)
  from "4.IH"(1)[OF a] have "cfg c1 = cfg c" .
  moreover from "4.IH"(2)[OF a refl b] have "cfg c' = cfg c1" .
  ultimately show ?case by simp
next
  case (5 production str c)
  then show ?case by simp
next
  case (6 fuel production str c)
  show ?case
  proof (cases production)
    case Nil
    from "6.prems"[unfolded Nil] show ?thesis
      by (cases rule: count_prod_derivations_NilE) simp_all
  next
    case (Cons first rest)
    from "6.prems"[unfolded Cons] show ?thesis
    proof (cases rule: count_prod_derivations_ConsE)
      case hit
      then show ?thesis by simp
    next
      case (split c1)
      with "6.IH" Cons have "cfg c1 = cfg c" by blast
      with split show ?thesis by simp
    qed
  qed
next
  case (7 fuel first rest str count c)
  then show ?case by simp
next
  case (8 fuel first rest str i js count c)
  from "8.prems" show ?case
  proof (cases rule: count_split_loop_ConsE)
    case (recurse first_count c1 rest_count c2)
    from "8.IH"(1)[OF recurse(1)] have "cfg c1 = cfg c" .
    moreover from "8.IH"(2)[OF recurse(1) refl recurse(2) recurse(3)] have "cfg c2 = cfg c1" .
    moreover from "8.IH"(3)[OF recurse(1) refl recurse(2) recurse(3) refl recurse(4)]
    have "cfg c' = cfg c2" .
    ultimately show ?thesis by simp
  next
    case (pruned first_count c1)
    from "8.IH"(1)[OF pruned(1)] have "cfg c1 = cfg c" .
    moreover from "8.IH"(4)[OF pruned(1) refl pruned(2) pruned(3)] have "cfg c' = cfg c1" .
    ultimately show ?thesis by simp
  qed
qed

section \<open>Counts are never negative\<close>

lemma memo_nonneg_update:
  "memo_nonneg c \<Longrightarrow> 0 \<le> v \<Longrightarrow> memo_nonneg (c\<lparr>memo := (memo c)(k \<mapsto> v)\<rparr>)"
  by (simp add: memo_nonneg_def)

lemma counts_nonneg:
  "count_derivations fuel symbol str c = Some (v, c') \<Longrightarrow> memo_nonneg c
     \<Longrightarrow> 0 \<le> v \<and> memo_nonneg c'"
  "count_rules_loop fuel ps str count c = Some (v, c') \<Longrightarrow> memo_nonneg c \<Longrightarrow> 0 \<le> count
     \<Longrightarrow> 0 \<le> v \<and> memo_nonneg c'"
  "count_prod_derivations fuel production str c = Some (v, c') \<Longrightarrow> memo_nonneg c
     \<Longrightarrow> 0 \<le> v \<and> memo_nonneg c'"
  "count_split_loop fuel first rest str js count c = Some (v, c') \<Longrightarrow> memo_nonneg c \<Longrightarrow> 0 \<le> count
     \<Longrightarrow> 0 \<le> v \<and> memo_nonneg c'"
proof (induction fuel symbol str c and fuel ps str count c and fuel production str c
         and fuel first rest str js count c arbitrary: v c' and v c' and v c' and v c'
         rule: counts_induct)
  case (1 symbol str c)
  then show ?case by simp
next
  case (2 fuel symbol str c)
  from "2.prems"(1) show ?case
  proof (cases rule: count_derivations_SucE)
    case hit
    with "2.prems"(2) show ?thesis by (auto simp: memo_nonneg_def)
  next
    case terminal
    have "0 \<le> v" using terminal(3) by simp
    with terminal(4) "2.prems"(2) show ?thesis by (simp add: memo_nonneg_update)
  next
    case (rules c1)
    from "2.IH"[OF rules(1,2,3) "2.prems"(2)] have "0 \<le> v \<and> memo_nonneg c1" by simp
    with rules(4) show ?thesis by (simp add: memo_nonneg_update)
  qed
next
  case (3 fuel str count c)
  then show ?case by simp
next
  case (4 fuel production ps str count c)
  from "4.prems"(1) obtain k c1 where
    a: "count_prod_derivations fuel production str c = Some (k, c1)"
    and b: "count_rules_loop fuel ps str (count + k) c1 = Some (v, c')"
    by (rule count_rules_loop_ConsE)
  from "4.IH"(1)[OF a "4.prems"(2)] have k: "0 \<le> k" "memo_nonneg c1" by simp_all
  with "4.prems"(3) have "0 \<le> count + k" by simp
  from "4.IH"(2)[OF a refl b k(2) this] show ?case .
next
  case (5 production str c)
  then show ?case by simp
next
  case (6 fuel production str c)
  show ?case
  proof (cases production)
    case Nil
    from "6.prems"(1)[unfolded Nil] show ?thesis
    proof (cases rule: count_prod_derivations_NilE)
      case hit
      with "6.prems"(2) show ?thesis by (auto simp: memo_nonneg_def)
    next
      case epsilon
      have "0 \<le> v" using epsilon(2) by simp
      with epsilon(3) "6.prems"(2) show ?thesis by (simp add: memo_nonneg_update)
    qed
  next
    case (Cons first rest)
    from "6.prems"(1)[unfolded Cons] show ?thesis
    proof (cases rule: count_prod_derivations_ConsE)
      case hit
      with "6.prems"(2) show ?thesis by (auto simp: memo_nonneg_def)
    next
      case (split c1)
      from split(1) Cons have "memo c (ProdKey production str) = None" by simp
      from "6.IH"[OF this Cons split(2) "6.prems"(2)] have "0 \<le> v \<and> memo_nonneg c1" by simp
      with split(3) show ?thesis by (simp add: memo_nonneg_update)
    qed
  qed
next
  case (7 fuel first rest str count c)
  then show ?case by simp
next
  case (8 fuel first rest str i js count c)
  from "8.prems"(1) show ?case
  proof (cases rule: count_split_loop_ConsE)
    case (recurse first_count c1 rest_count c2)
    from "8.IH"(1)[OF recurse(1) "8.prems"(2)] have a: "0 \<le> first_count" "memo_nonneg c1"
      by simp_all
    from "8.IH"(2)[OF recurse(1) refl recurse(2) recurse(3) a(2)]
    have b: "0 \<le> rest_count" "memo_nonneg c2" by simp_all
    from a(1) b(1) "8.prems"(3) have "0 \<le> count + first_count * rest_count" by simp
    from "8.IH"(3)[OF recurse(1) refl recurse(2) recurse(3) refl recurse(4) b(2) this]
    show ?thesis .
  next
    case (pruned first_count c1)
    from "8.IH"(1)[OF pruned(1) "8.prems"(2)] have a: "memo_nonneg c1" by simp
    from "8.IH"(4)[OF pruned(1) refl pruned(2) pruned(3) a "8.prems"(3)] show ?thesis .
  qed
qed

lemma memo_nonneg_empty: "memo_nonneg (c\<lparr>memo := Map.empty\<rparr>)"
  by (simp add: memo_nonneg_def)

section \<open>The recursion without the memo: more fuel changes nothing\<close>

lemmas plain_induct =
  plain_count_plain_rules_loop_plain_prod_count_plain_split_loop.induct

lemma plain_rules_loop_ConsE:
  assumes "plain_rules_loop g fuel (production # ps) str count = Some v"
  obtains k where "plain_prod_count g fuel production str = Some k"
      "plain_rules_loop g fuel ps str (count + k) = Some v"
  using assms by (auto split: option.splits)

lemma plain_split_loop_ConsE:
  assumes "plain_split_loop g fuel first rest str (i # js) count = Some v"
  obtains (recurse) first_count rest_count where
      "plain_count g fuel first (take i str) = Some first_count" "0 < first_count"
      "plain_prod_count g fuel rest (drop i str) = Some rest_count"
      "plain_split_loop g fuel first rest str js (count + first_count * rest_count) = Some v"
  | (pruned) first_count where
      "plain_count g fuel first (take i str) = Some first_count" "\<not> 0 < first_count"
      "plain_split_loop g fuel first rest str js count = Some v"
  using assms by (auto split: option.splits if_splits)

lemma plain_Suc:
  "plain_count g fuel symbol str = Some v \<Longrightarrow> plain_count g (Suc fuel) symbol str = Some v"
  "plain_rules_loop g fuel ps str count = Some v
     \<Longrightarrow> plain_rules_loop g (Suc fuel) ps str count = Some v"
  "plain_prod_count g fuel production str = Some v
     \<Longrightarrow> plain_prod_count g (Suc fuel) production str = Some v"
  "plain_split_loop g fuel first rest str js count = Some v
     \<Longrightarrow> plain_split_loop g (Suc fuel) first rest str js count = Some v"
proof (induction g fuel symbol str and g fuel ps str count and g fuel production str
         and g fuel first rest str js count arbitrary: v and v and v and v
         rule: plain_induct)
  case (1 g symbol str)
  then show ?case by simp
next
  case (2 g fuel symbol str)
  show ?case
  proof (cases "symbol \<in> non_terminals g")
    case True
    with "2.prems" have "plain_rules_loop g fuel (get_rules g symbol) str 0 = Some v" by simp
    from "2.IH"[OF _ this] True show ?thesis by simp
  next
    case False
    with "2.prems" show ?thesis by simp
  qed
next
  case (3 g fuel str count)
  then show ?case by simp
next
  case (4 g fuel production ps str count)
  from "4.prems" obtain k where
    a: "plain_prod_count g fuel production str = Some k"
    and b: "plain_rules_loop g fuel ps str (count + k) = Some v"
    by (rule plain_rules_loop_ConsE)
  from "4.IH"(1)[OF a] "4.IH"(2)[OF a b] show ?case by simp
next
  case (5 g production str)
  then show ?case by simp
next
  case (6 g fuel str)
  then show ?case by simp
next
  case (7 g fuel first rest str)
  then show ?case by simp
next
  case (8 g fuel first rest str count)
  then show ?case by simp
next
  case (9 g fuel first rest str i js count)
  from "9.prems" show ?case
  proof (cases rule: plain_split_loop_ConsE)
    case (recurse first_count rest_count)
    from "9.IH"(1)[OF recurse(1)] "9.IH"(2)[OF recurse(1,2,3)]
      "9.IH"(3)[OF recurse(1,2,3,4)] recurse(2)
    show ?thesis by simp
  next
    case (pruned first_count)
    from "9.IH"(1)[OF pruned(1)] "9.IH"(4)[OF pruned(1,2,3)] pruned(2)
    show ?thesis by simp
  qed
qed

lemma plain_count_add:
  "plain_count g fuel symbol str = Some v \<Longrightarrow> plain_count g (fuel + d) symbol str = Some v"
proof (induction d)
  case 0
  then show ?case by simp
next
  case (Suc d)
  then have "plain_count g (fuel + d) symbol str = Some v" by blast
  from plain_Suc(1)[OF this] show ?case by (simp only: add_Suc_right)
qed

lemma plain_prod_count_add:
  "plain_prod_count g fuel production str = Some v
     \<Longrightarrow> plain_prod_count g (fuel + d) production str = Some v"
proof (induction d)
  case 0
  then show ?case by simp
next
  case (Suc d)
  then have "plain_prod_count g (fuel + d) production str = Some v" by blast
  from plain_Suc(3)[OF this] show ?case by (simp only: add_Suc_right)
qed

lemma plain_rules_loop_add:
  "plain_rules_loop g fuel ps str count = Some v
     \<Longrightarrow> plain_rules_loop g (fuel + d) ps str count = Some v"
proof (induction d)
  case 0
  then show ?case by simp
next
  case (Suc d)
  then have "plain_rules_loop g (fuel + d) ps str count = Some v" by blast
  from plain_Suc(2)[OF this] show ?case by (simp only: add_Suc_right)
qed

lemma plain_split_loop_add:
  "plain_split_loop g fuel first rest str js count = Some v
     \<Longrightarrow> plain_split_loop g (fuel + d) first rest str js count = Some v"
proof (induction d)
  case 0
  then show ?case by simp
next
  case (Suc d)
  then have "plain_split_loop g (fuel + d) first rest str js count = Some v" by blast
  from plain_Suc(4)[OF this] show ?case by (simp only: add_Suc_right)
qed

lemma plain_mono:
  assumes "fuel \<le> fuel'"
  shows "plain_count g fuel symbol str = Some v \<Longrightarrow> plain_count g fuel' symbol str = Some v"
    and "plain_rules_loop g fuel ps str count = Some v
           \<Longrightarrow> plain_rules_loop g fuel' ps str count = Some v"
    and "plain_prod_count g fuel production str = Some v
           \<Longrightarrow> plain_prod_count g fuel' production str = Some v"
    and "plain_split_loop g fuel first rest str js count = Some v
           \<Longrightarrow> plain_split_loop g fuel' first rest str js count = Some v"
proof -
  from assms have e: "fuel' = fuel + (fuel' - fuel)" by simp
  show "plain_count g fuel symbol str = Some v \<Longrightarrow> plain_count g fuel' symbol str = Some v"
    by (subst e) (rule plain_count_add)
  show "plain_rules_loop g fuel ps str count = Some v
           \<Longrightarrow> plain_rules_loop g fuel' ps str count = Some v"
    by (subst e) (rule plain_rules_loop_add)
  show "plain_prod_count g fuel production str = Some v
           \<Longrightarrow> plain_prod_count g fuel' production str = Some v"
    by (subst e) (rule plain_prod_count_add)
  show "plain_split_loop g fuel first rest str js count = Some v
           \<Longrightarrow> plain_split_loop g fuel' first rest str js count = Some v"
    by (subst e) (rule plain_split_loop_add)
qed

lemma plain_count_unique:
  assumes "plain_count g fuel symbol str = Some v" "plain_count g fuel' symbol str = Some v'"
  shows "v = v'"
proof -
  have "plain_count g (max fuel fuel') symbol str = Some v"
    by (rule plain_mono(1)[OF _ assms(1)]) simp
  moreover have "plain_count g (max fuel fuel') symbol str = Some v'"
    by (rule plain_mono(1)[OF _ assms(2)]) simp
  ultimately show ?thesis by simp
qed

lemma plain_prod_count_unique:
  assumes "plain_prod_count g fuel production str = Some v"
    "plain_prod_count g fuel' production str = Some v'"
  shows "v = v'"
proof -
  have "plain_prod_count g (max fuel fuel') production str = Some v"
    by (rule plain_mono(3)[OF _ assms(1)]) simp
  moreover have "plain_prod_count g (max fuel fuel') production str = Some v'"
    by (rule plain_mono(3)[OF _ assms(2)]) simp
  ultimately show ?thesis by simp
qed

section \<open>The memoized counter returns what the recursion without the memo returns\<close>

lemma memo_sound_empty: "memo_sound g Map.empty"
  by (simp add: memo_sound_def)

lemma memo_sound_update_sym:
  assumes "memo_sound g m" "plain_count g fuel symbol str = Some v"
  shows "memo_sound g (m(SymKey symbol str \<mapsto> v))"
  using assms unfolding memo_sound_def by auto

lemma memo_sound_update_prod:
  assumes "memo_sound g m" "plain_prod_count g fuel production str = Some v"
  shows "memo_sound g (m(ProdKey production str \<mapsto> v))"
  using assms unfolding memo_sound_def by auto

lemma memo_sound_symD:
  "memo_sound g m \<Longrightarrow> m (SymKey symbol str) = Some v
     \<Longrightarrow> \<exists>fuel. plain_count g fuel symbol str = Some v"
  unfolding memo_sound_def by blast

lemma memo_sound_prodD:
  "memo_sound g m \<Longrightarrow> m (ProdKey production str) = Some v
     \<Longrightarrow> \<exists>fuel. plain_prod_count g fuel production str = Some v"
  unfolding memo_sound_def by blast

lemma counts_sound:
  "count_derivations fuel symbol str c = Some (v, c') \<Longrightarrow> memo_sound (cfg c) (memo c)
     \<Longrightarrow> (\<exists>n. plain_count (cfg c) n symbol str = Some v) \<and> memo_sound (cfg c) (memo c')"
  "count_rules_loop fuel ps str count c = Some (v, c') \<Longrightarrow> memo_sound (cfg c) (memo c)
     \<Longrightarrow> (\<exists>n. plain_rules_loop (cfg c) n ps str count = Some v) \<and>
         memo_sound (cfg c) (memo c')"
  "count_prod_derivations fuel production str c = Some (v, c') \<Longrightarrow> memo_sound (cfg c) (memo c)
     \<Longrightarrow> (\<exists>n. plain_prod_count (cfg c) n production str = Some v) \<and>
         memo_sound (cfg c) (memo c')"
  "count_split_loop fuel first rest str js count c = Some (v, c')
     \<Longrightarrow> memo_sound (cfg c) (memo c)
     \<Longrightarrow> (\<exists>n. plain_split_loop (cfg c) n first rest str js count = Some v) \<and>
         memo_sound (cfg c) (memo c')"
proof (induction fuel symbol str c and fuel ps str count c and fuel production str c
         and fuel first rest str js count c arbitrary: v c' and v c' and v c' and v c'
         rule: counts_induct)
  case (1 symbol str c)
  then show ?case by simp
next
  case (2 fuel symbol str c)
  from "2.prems"(1) show ?case
  proof (cases rule: count_derivations_SucE)
    case hit
    with "2.prems"(2) show ?thesis by (auto dest: memo_sound_symD)
  next
    case terminal
    then have p: "plain_count (cfg c) (Suc 0) symbol str = Some v"
      by (simp add: is_terminal_def)
    from memo_sound_update_sym[OF "2.prems"(2) p] terminal(4)
    have "memo_sound (cfg c) (memo c')" by simp
    with p show ?thesis by blast
  next
    case (rules c1)
    from "2.IH"[OF rules(1,2,3) "2.prems"(2)] obtain n where
      n: "plain_rules_loop (cfg c) n (get_rules (cfg c) symbol) str 0 = Some v"
      and s: "memo_sound (cfg c) (memo c1)" by blast
    from n rules(2) have p: "plain_count (cfg c) (Suc n) symbol str = Some v"
      by (simp add: is_terminal_def)
    from memo_sound_update_sym[OF s p] rules(4)
    have "memo_sound (cfg c) (memo c')" by simp
    with p show ?thesis by blast
  qed
next
  case (3 fuel str count c)
  then show ?case by auto
next
  case (4 fuel production ps str count c)
  from "4.prems"(1) obtain k c1 where
    a: "count_prod_derivations fuel production str c = Some (k, c1)"
    and b: "count_rules_loop fuel ps str (count + k) c1 = Some (v, c')"
    by (rule count_rules_loop_ConsE)
  from counts_cfg(3)[OF a] have g: "cfg c1 = cfg c" .
  from "4.IH"(1)[OF a "4.prems"(2)] obtain n1 where
    n1: "plain_prod_count (cfg c) n1 production str = Some k"
    and s1: "memo_sound (cfg c) (memo c1)" by blast
  from "4.IH"(2)[OF a refl b] s1 g obtain n2 where
    n2: "plain_rules_loop (cfg c) n2 ps str (count + k) = Some v"
    and s2: "memo_sound (cfg c) (memo c')" by auto
  have "plain_prod_count (cfg c) (max n1 n2) production str = Some k"
    by (rule plain_mono(3)[OF _ n1]) simp
  moreover have "plain_rules_loop (cfg c) (max n1 n2) ps str (count + k) = Some v"
    by (rule plain_mono(2)[OF _ n2]) simp
  ultimately have "plain_rules_loop (cfg c) (max n1 n2) (production # ps) str count = Some v"
    by simp
  with s2 show ?case by blast
next
  case (5 production str c)
  then show ?case by simp
next
  case (6 fuel production str c)
  show ?case
  proof (cases production)
    case Nil
    from "6.prems"(1)[unfolded Nil] show ?thesis
    proof (cases rule: count_prod_derivations_NilE)
      case hit
      with "6.prems"(2) Nil show ?thesis by (auto dest: memo_sound_prodD)
    next
      case epsilon
      then have p: "plain_prod_count (cfg c) (Suc 0) [] str = Some v" by simp
      from memo_sound_update_prod[OF "6.prems"(2) p] epsilon(3)
      have "memo_sound (cfg c) (memo c')" by simp
      with p Nil show ?thesis by blast
    qed
  next
    case (Cons first rest)
    from "6.prems"(1)[unfolded Cons] show ?thesis
    proof (cases rule: count_prod_derivations_ConsE)
      case hit
      with "6.prems"(2) Cons show ?thesis by (auto dest: memo_sound_prodD)
    next
      case (split c1)
      from split(1) Cons have m: "memo c (ProdKey production str) = None" by simp
      from "6.IH"[OF m Cons split(2) "6.prems"(2)] obtain n where
        n: "plain_split_loop (cfg c) n first rest str (split_points str) 0 = Some v"
        and s: "memo_sound (cfg c) (memo c1)" by blast
      from n have p: "plain_prod_count (cfg c) (Suc n) (first # rest) str = Some v" by simp
      from memo_sound_update_prod[OF s p] split(3)
      have "memo_sound (cfg c) (memo c')" by simp
      with p Cons show ?thesis by blast
    qed
  qed
next
  case (7 fuel first rest str count c)
  then show ?case by auto
next
  case (8 fuel first rest str i js count c)
  from "8.prems"(1) show ?case
  proof (cases rule: count_split_loop_ConsE)
    case (recurse first_count c1 rest_count c2)
    from counts_cfg(1)[OF recurse(1)] have g1: "cfg c1 = cfg c" .
    from counts_cfg(3)[OF recurse(3)] g1 have g2: "cfg c2 = cfg c" by simp
    from "8.IH"(1)[OF recurse(1) "8.prems"(2)] obtain n1 where
      n1: "plain_count (cfg c) n1 first (take i str) = Some first_count"
      and s1: "memo_sound (cfg c) (memo c1)" by blast
    from "8.IH"(2)[OF recurse(1) refl recurse(2) recurse(3)] s1 g1 obtain n2 where
      n2: "plain_prod_count (cfg c) n2 rest (drop i str) = Some rest_count"
      and s2: "memo_sound (cfg c) (memo c2)" by auto
    from "8.IH"(3)[OF recurse(1) refl recurse(2) recurse(3) refl recurse(4)] s2 g2
    obtain n3 where
      n3: "plain_split_loop (cfg c) n3 first rest str js (count + first_count * rest_count)
             = Some v"
      and s3: "memo_sound (cfg c) (memo c')" by auto
    let ?n = "max n1 (max n2 n3)"
    have "plain_count (cfg c) ?n first (take i str) = Some first_count"
      by (rule plain_mono(1)[OF _ n1]) simp
    moreover have "plain_prod_count (cfg c) ?n rest (drop i str) = Some rest_count"
      by (rule plain_mono(3)[OF _ n2]) simp
    moreover have "plain_split_loop (cfg c) ?n first rest str js
        (count + first_count * rest_count) = Some v"
      by (rule plain_mono(4)[OF _ n3]) simp
    ultimately have "plain_split_loop (cfg c) ?n first rest str (i # js) count = Some v"
      using recurse(2) by simp
    with s3 show ?thesis by blast
  next
    case (pruned first_count c1)
    from counts_cfg(1)[OF pruned(1)] have g1: "cfg c1 = cfg c" .
    from "8.IH"(1)[OF pruned(1) "8.prems"(2)] obtain n1 where
      n1: "plain_count (cfg c) n1 first (take i str) = Some first_count"
      and s1: "memo_sound (cfg c) (memo c1)" by blast
    from "8.IH"(4)[OF pruned(1) refl pruned(2) pruned(3)] s1 g1 obtain n3 where
      n3: "plain_split_loop (cfg c) n3 first rest str js count = Some v"
      and s3: "memo_sound (cfg c) (memo c')" by auto
    let ?n = "max n1 n3"
    have "plain_count (cfg c) ?n first (take i str) = Some first_count"
      by (rule plain_mono(1)[OF _ n1]) simp
    moreover have "plain_split_loop (cfg c) ?n first rest str js count = Some v"
      by (rule plain_mono(4)[OF _ n3]) simp
    ultimately have "plain_split_loop (cfg c) ?n first rest str (i # js) count = Some v"
      using pruned(2) by simp
    with s3 show ?thesis by blast
  qed
qed

lemma counts_complete:
  "plain_count g fuel symbol str = Some v \<Longrightarrow> cfg c = g \<Longrightarrow> memo_sound g (memo c)
     \<Longrightarrow> \<exists>c'. count_derivations fuel symbol str c = Some (v, c')"
  "plain_rules_loop g fuel ps str count = Some v \<Longrightarrow> cfg c = g \<Longrightarrow> memo_sound g (memo c)
     \<Longrightarrow> \<exists>c'. count_rules_loop fuel ps str count c = Some (v, c')"
  "plain_prod_count g fuel production str = Some v \<Longrightarrow> cfg c = g \<Longrightarrow> memo_sound g (memo c)
     \<Longrightarrow> \<exists>c'. count_prod_derivations fuel production str c = Some (v, c')"
  "plain_split_loop g fuel first rest str js count = Some v \<Longrightarrow> cfg c = g
     \<Longrightarrow> memo_sound g (memo c)
     \<Longrightarrow> \<exists>c'. count_split_loop fuel first rest str js count c = Some (v, c')"
proof (induction g fuel symbol str and g fuel ps str count and g fuel production str
         and g fuel first rest str js count arbitrary: v c and v c and v c and v c
         rule: plain_induct)
  case (1 g symbol str)
  then show ?case by simp
next
  case (2 g fuel symbol str)
  show ?case
  proof (cases "memo c (SymKey symbol str)")
    case (Some v')
    from memo_sound_symD[OF "2.prems"(3) Some] obtain n where
      "plain_count g n symbol str = Some v'" by blast
    from plain_count_unique[OF this "2.prems"(1)] have "v' = v" .
    with Some show ?thesis by simp
  next
    case None
    show ?thesis
    proof (cases "symbol \<in> non_terminals g")
      case False
      with "2.prems"(1,2) None show ?thesis by (auto simp: is_terminal_def)
    next
      case True
      with "2.prems"(1) have "plain_rules_loop g fuel (get_rules g symbol) str 0 = Some v"
        by simp
      from "2.IH"[OF _ this "2.prems"(2,3)] True obtain c1 where
        "count_rules_loop fuel (get_rules g symbol) str 0 c = Some (v, c1)" by auto
      with None True "2.prems"(2) show ?thesis by (simp add: is_terminal_def)
    qed
  qed
next
  case (3 g fuel str count)
  then show ?case by simp
next
  case (4 g fuel production ps str count)
  from "4.prems"(1) obtain k where
    a: "plain_prod_count g fuel production str = Some k"
    and b: "plain_rules_loop g fuel ps str (count + k) = Some v"
    by (rule plain_rules_loop_ConsE)
  from "4.IH"(1)[OF a "4.prems"(2,3)] obtain c1 where
    c1: "count_prod_derivations fuel production str c = Some (k, c1)" by blast
  from counts_cfg(3)[OF c1] "4.prems"(2) have g1: "cfg c1 = g" by simp
  from counts_sound(3)[OF c1] "4.prems"(2,3) have s1: "memo_sound g (memo c1)" by simp
  from "4.IH"(2)[OF a b g1 s1] obtain c' where
    "count_rules_loop fuel ps str (count + k) c1 = Some (v, c')" by blast
  with c1 show ?case by simp
next
  case (5 g production str)
  then show ?case by simp
next
  case (6 g fuel str)
  show ?case
  proof (cases "memo c (ProdKey [] str)")
    case (Some v')
    from memo_sound_prodD[OF "6.prems"(3) Some] obtain n where
      "plain_prod_count g n [] str = Some v'" by blast
    from plain_prod_count_unique[OF this "6.prems"(1)] have "v' = v" .
    with Some show ?thesis by simp
  next
    case None
    with "6.prems"(1) show ?thesis by auto
  qed
next
  case (7 g fuel first rest str)
  show ?case
  proof (cases "memo c (ProdKey (first # rest) str)")
    case (Some v')
    from memo_sound_prodD[OF "7.prems"(3) Some] obtain n where
      "plain_prod_count g n (first # rest) str = Some v'" by blast
    from plain_prod_count_unique[OF this "7.prems"(1)] have "v' = v" .
    with Some show ?thesis by simp
  next
    case None
    from "7.prems"(1) have "plain_split_loop g fuel first rest str (split_points str) 0 = Some v"
      by simp
    from "7.IH"[OF this "7.prems"(2,3)] obtain c1 where
      "count_split_loop fuel first rest str (split_points str) 0 c = Some (v, c1)" by blast
    with None show ?thesis by simp
  qed
next
  case (8 g fuel first rest str count)
  then show ?case by simp
next
  case (9 g fuel first rest str i js count)
  from "9.prems"(1) show ?case
  proof (cases rule: plain_split_loop_ConsE)
    case (recurse first_count rest_count)
    from "9.IH"(1)[OF recurse(1) "9.prems"(2,3)] obtain c1 where
      c1: "count_derivations fuel first (take i str) c = Some (first_count, c1)" by blast
    from counts_cfg(1)[OF c1] "9.prems"(2) have g1: "cfg c1 = g" by simp
    from counts_sound(1)[OF c1] "9.prems"(2,3) have s1: "memo_sound g (memo c1)" by simp
    from "9.IH"(2)[OF recurse(1,2,3) g1 s1] obtain c2 where
      c2: "count_prod_derivations fuel rest (drop i str) c1 = Some (rest_count, c2)" by blast
    from counts_cfg(3)[OF c2] g1 have g2: "cfg c2 = g" by simp
    from counts_sound(3)[OF c2] g1 s1 have s2: "memo_sound g (memo c2)" by simp
    from "9.IH"(3)[OF recurse(1,2,3,4) g2 s2] obtain c' where
      "count_split_loop fuel first rest str js (count + first_count * rest_count) c2
         = Some (v, c')" by blast
    with c1 c2 recurse(2) show ?thesis by simp
  next
    case (pruned first_count)
    from "9.IH"(1)[OF pruned(1) "9.prems"(2,3)] obtain c1 where
      c1: "count_derivations fuel first (take i str) c = Some (first_count, c1)" by blast
    from counts_cfg(1)[OF c1] "9.prems"(2) have g1: "cfg c1 = g" by simp
    from counts_sound(1)[OF c1] "9.prems"(2,3) have s1: "memo_sound g (memo c1)" by simp
    from "9.IH"(4)[OF pruned(1,2,3) g1 s1] obtain c' where
      "count_split_loop fuel first rest str js count c1 = Some (v, c')" by blast
    with c1 pruned(2) show ?thesis by simp
  qed
qed

section \<open>Counting the derivation trees\<close>

lemma derivations_terminal:
  assumes "symbol \<notin> non_terminals g"
  shows "derivations g symbol str = (if str = symbol then {Leaf symbol} else {})"
proof -
  have "t \<in> derivations g symbol str \<longleftrightarrow> (str = symbol \<and> t = Leaf symbol)" for t
    using assms by (cases t) (auto simp: derivations_def)
  then show ?thesis by auto
qed

lemma derivations_non_terminal:
  assumes "symbol \<in> non_terminals g"
  shows "derivations g symbol str =
     (\<Union>k \<in> {..<length (get_rules g symbol)}.
        Node symbol k ` prod_derivations g (get_rules g symbol ! k) str)"
proof -
  have "t \<in> derivations g symbol str \<longleftrightarrow>
        (\<exists>k < length (get_rules g symbol). \<exists>ts \<in> prod_derivations g (get_rules g symbol ! k) str.
           t = Node symbol k ts)" for t
    using assms by (cases t) (auto simp: derivations_def prod_derivations_def)
  then show ?thesis by blast
qed

lemma int_sum_list: "int (sum_list (map f xs)) = (\<Sum>x \<leftarrow> xs. int (f x))"
  by (induction xs) simp_all

lemma card_derivations_non_terminal:
  assumes "symbol \<in> non_terminals g"
    and "\<forall>production \<in> set (get_rules g symbol). finite (prod_derivations g production str)"
  shows "finite (derivations g symbol str)"
    and "int (card (derivations g symbol str)) =
       (\<Sum>production \<leftarrow> get_rules g symbol. int (card (prod_derivations g production str)))"
proof -
  let ?ps = "get_rules g symbol"
  let ?A = "\<lambda>k. Node symbol k ` prod_derivations g (?ps ! k) str"
  have fin: "\<forall>k \<in> {..<length ?ps}. finite (?A k)"
    using assms(2) by auto
  have disj: "\<forall>k \<in> {..<length ?ps}. \<forall>l \<in> {..<length ?ps}. k \<noteq> l \<longrightarrow> ?A k \<inter> ?A l = {}"
    by auto
  have eq: "derivations g symbol str = (\<Union>k \<in> {..<length ?ps}. ?A k)"
    by (rule derivations_non_terminal[OF assms(1)])
  from fin show "finite (derivations g symbol str)" unfolding eq by blast
  have "card (derivations g symbol str) = (\<Sum>k \<in> {..<length ?ps}. card (?A k))"
    unfolding eq by (rule card_UN_disjoint[OF _ fin disj]) simp
  also have "\<dots> = (\<Sum>k \<in> {..<length ?ps}. card (prod_derivations g (?ps ! k) str))"
    by (rule sum.cong[OF refl]) (simp add: card_image inj_on_def)
  also have "\<dots> = (\<Sum>production \<leftarrow> ?ps. card (prod_derivations g production str))"
    by (simp add: sum_list_sum_nth atLeast0LessThan)
  finally show "int (card (derivations g symbol str)) =
       (\<Sum>production \<leftarrow> ?ps. int (card (prod_derivations g production str)))"
    by (simp add: int_sum_list)
qed

lemma prod_derivations_Nil:
  "prod_derivations g [] str = (if str = [] then {[]} else {})"
  by (auto simp: prod_derivations_def)

lemma prod_derivations_Cons:
  "prod_derivations g (first # rest) str =
     (\<Union>i \<in> {..length str}.
        (\<lambda>(t, ts). t # ts) ` (derivations g first (take i str) \<times>
                              prod_derivations g rest (drop i str)))"
  (is "?L = ?R")
proof (rule set_eqI)
  fix x
  show "x \<in> ?L \<longleftrightarrow> x \<in> ?R"
  proof
    assume "x \<in> ?L"
    then obtain t ts where x: "x = t # ts" and v: "valid g t" "list_all (valid g) ts"
      and r: "root t = first" "map root ts = rest"
      and y: "yield t @ concat (map yield ts) = str"
      by (cases x) (auto simp: prod_derivations_def)
    let ?i = "length (yield t)"
    from y have "?i \<le> length str" "take ?i str = yield t" "drop ?i str = concat (map yield ts)"
      by auto
    with v r have "t \<in> derivations g first (take ?i str)"
      "ts \<in> prod_derivations g rest (drop ?i str)" "?i \<in> {..length str}"
      by (auto simp: derivations_def prod_derivations_def)
    with x show "x \<in> ?R" by blast
  next
    assume "x \<in> ?R"
    then obtain i t ts where "i \<le> length str" "x = t # ts"
      "t \<in> derivations g first (take i str)" "ts \<in> prod_derivations g rest (drop i str)"
      by auto
    then show "x \<in> ?L"
      by (auto simp: derivations_def prod_derivations_def)
  qed
qed

lemma card_prod_derivations_Cons:
  assumes "\<forall>i \<le> length str. finite (derivations g first (take i str))"
    and "\<forall>i \<le> length str. derivations g first (take i str) \<noteq> {}
           \<longrightarrow> finite (prod_derivations g rest (drop i str))"
  shows "finite (prod_derivations g (first # rest) str)"
    and "int (card (prod_derivations g (first # rest) str)) =
       (\<Sum>i \<leftarrow> split_points str.
          int (card (derivations g first (take i str))) *
          int (card (prod_derivations g rest (drop i str))))"
proof -
  let ?B = "\<lambda>i. derivations g first (take i str) \<times> prod_derivations g rest (drop i str)"
  let ?A = "\<lambda>i. (\<lambda>(t, ts). t # ts) ` ?B i"
  have finB: "finite (?B i)" if "i \<le> length str" for i
  proof (cases "derivations g first (take i str) = {}")
    case True
    then show ?thesis by simp
  next
    case False
    with assms that show ?thesis by blast
  qed
  then have fin: "\<forall>i \<in> {..length str}. finite (?A i)" by blast
  have disj: "\<forall>i \<in> {..length str}. \<forall>j \<in> {..length str}. i \<noteq> j \<longrightarrow> ?A i \<inter> ?A j = {}"
  proof (intro ballI impI)
    fix i j assume i: "i \<in> {..length str}" and j: "j \<in> {..length str}" and ne: "i \<noteq> j"
    have "length (yield t) = i" if "t \<in> derivations g first (take i str)" for t
      using that i by (auto simp: derivations_def)
    moreover have "length (yield t) = j" if "t \<in> derivations g first (take j str)" for t
      using that j by (auto simp: derivations_def)
    ultimately show "?A i \<inter> ?A j = {}" using ne by auto
  qed
  have eq: "prod_derivations g (first # rest) str = (\<Union>i \<in> {..length str}. ?A i)"
    by (rule prod_derivations_Cons)
  from fin show "finite (prod_derivations g (first # rest) str)" unfolding eq by blast
  have inj: "inj_on (\<lambda>(t, ts). t # ts) (?B i)" for i
    by (auto simp: inj_on_def)
  have "card (prod_derivations g (first # rest) str) = (\<Sum>i \<in> {..length str}. card (?A i))"
    unfolding eq by (rule card_UN_disjoint[OF _ fin disj]) simp
  also have "\<dots> = (\<Sum>i \<in> {..length str}. card (?B i))"
    by (rule sum.cong[OF refl]) (simp add: card_image[OF inj])
  also have "\<dots> = (\<Sum>i \<in> {..length str}.
      card (derivations g first (take i str)) * card (prod_derivations g rest (drop i str)))"
    by (simp add: card_cartesian_product)
  also have "\<dots> = (\<Sum>i \<leftarrow> split_points str.
      card (derivations g first (take i str)) * card (prod_derivations g rest (drop i str)))"
    by (simp add: split_points_def interv_sum_list_conv_sum_set_nat atMost_atLeast0
          atLeastLessThanSuc_atLeastAtMost del: upt_Suc)
  finally show "int (card (prod_derivations g (first # rest) str)) =
       (\<Sum>i \<leftarrow> split_points str.
          int (card (derivations g first (take i str))) *
          int (card (prod_derivations g rest (drop i str))))"
    by (simp add: int_sum_list)
qed

section \<open>The loops compute sums\<close>

lemma plain_rules_loop_sum:
  assumes "\<forall>production \<in> set ps. \<exists>n. plain_prod_count g n production str = Some (f production)"
  shows "\<exists>n. plain_rules_loop g n ps str count = Some (count + (\<Sum>production \<leftarrow> ps. f production))"
  using assms
proof (induction ps arbitrary: count)
  case Nil
  then show ?case by simp
next
  case (Cons production ps)
  from Cons.prems obtain n1 where
    n1: "plain_prod_count g n1 production str = Some (f production)" by auto
  from Cons.IH[of "count + f production"] Cons.prems obtain n2 where
    n2: "plain_rules_loop g n2 ps str (count + f production) =
           Some (count + f production + (\<Sum>production \<leftarrow> ps. f production))" by auto
  have "plain_prod_count g (max n1 n2) production str = Some (f production)"
    by (rule plain_mono(3)[OF _ n1]) simp
  moreover have "plain_rules_loop g (max n1 n2) ps str (count + f production) =
      Some (count + f production + (\<Sum>production \<leftarrow> ps. f production))"
    by (rule plain_mono(2)[OF _ n2]) simp
  ultimately have "plain_rules_loop g (max n1 n2) (production # ps) str count =
      Some (count + (\<Sum>production \<leftarrow> production # ps. f production))"
    by (simp add: add.assoc)
  then show ?case by blast
qed

lemma plain_split_loop_sum:
  assumes "\<forall>i \<in> set js. 0 \<le> a i \<and> (\<exists>n. plain_count g n first (take i str) = Some (a i))"
    and "\<forall>i \<in> set js. 0 < a i \<longrightarrow> (\<exists>n. plain_prod_count g n rest (drop i str) = Some (b i))"
  shows "\<exists>n. plain_split_loop g n first rest str js count =
              Some (count + (\<Sum>i \<leftarrow> js. a i * b i))"
  using assms
proof (induction js arbitrary: count)
  case Nil
  then show ?case by simp
next
  case (Cons i js)
  from Cons.prems(1) obtain n1 where
    n1: "plain_count g n1 first (take i str) = Some (a i)" and a0: "0 \<le> a i" by auto
  show ?case
  proof (cases "0 < a i")
    case True
    with Cons.prems(2) obtain n2 where
      n2: "plain_prod_count g n2 rest (drop i str) = Some (b i)" by auto
    from Cons.IH[of "count + a i * b i"] Cons.prems obtain n3 where
      n3: "plain_split_loop g n3 first rest str js (count + a i * b i) =
             Some (count + a i * b i + (\<Sum>i \<leftarrow> js. a i * b i))" by auto
    let ?n = "max n1 (max n2 n3)"
    have "plain_count g ?n first (take i str) = Some (a i)"
      by (rule plain_mono(1)[OF _ n1]) simp
    moreover have "plain_prod_count g ?n rest (drop i str) = Some (b i)"
      by (rule plain_mono(3)[OF _ n2]) simp
    moreover have "plain_split_loop g ?n first rest str js (count + a i * b i) =
        Some (count + a i * b i + (\<Sum>i \<leftarrow> js. a i * b i))"
      by (rule plain_mono(4)[OF _ n3]) simp
    ultimately have "plain_split_loop g ?n first rest str (i # js) count =
        Some (count + (\<Sum>i \<leftarrow> i # js. a i * b i))"
      using True by (simp add: add.assoc)
    then show ?thesis by blast
  next
    case False
    with a0 have z: "a i = 0" by simp
    from Cons.IH[of count] Cons.prems obtain n3 where
      n3: "plain_split_loop g n3 first rest str js count =
             Some (count + (\<Sum>i \<leftarrow> js. a i * b i))" by auto
    let ?n = "max n1 n3"
    have "plain_count g ?n first (take i str) = Some (a i)"
      by (rule plain_mono(1)[OF _ n1]) simp
    moreover have "plain_split_loop g ?n first rest str js count =
        Some (count + (\<Sum>i \<leftarrow> js. a i * b i))"
      by (rule plain_mono(4)[OF _ n3]) simp
    ultimately have "plain_split_loop g ?n first rest str (i # js) count =
        Some (count + (\<Sum>i \<leftarrow> i # js. a i * b i))"
      using z by simp
    then show ?thesis by blast
  qed
qed

section \<open>Without left recursion the recursion returns the number of derivation trees\<close>

lemma count_agrees_terminal:
  assumes "symbol \<notin> non_terminals g"
  shows "count_agrees g symbol str"
proof -
  have "plain_count g (Suc 0) symbol str = Some (reference_count g symbol str)"
    using assms by (simp add: reference_count_def derivations_terminal)
  moreover have "finite (derivations g symbol str)"
    using assms by (simp add: derivations_terminal)
  ultimately show ?thesis unfolding count_agrees_def by blast
qed

lemma prod_count_agrees_Nil: "prod_count_agrees g [] str"
proof -
  have "plain_prod_count g (Suc 0) [] str = Some (reference_prod_count g [] str)"
    by (simp add: reference_prod_count_def prod_derivations_Nil)
  moreover have "finite (prod_derivations g [] str)"
    by (simp add: prod_derivations_Nil)
  ultimately show ?thesis unfolding prod_count_agrees_def by blast
qed

lemma prod_count_agrees_Cons:
  assumes "\<forall>i \<le> length str. count_agrees g first (take i str)"
    and "\<forall>i \<le> length str. derivations g first (take i str) \<noteq> {}
           \<longrightarrow> prod_count_agrees g rest (drop i str)"
  shows "prod_count_agrees g (first # rest) str"
proof -
  let ?a = "\<lambda>i. reference_count g first (take i str)"
  let ?b = "\<lambda>i. reference_prod_count g rest (drop i str)"
  have fin1: "\<forall>i \<le> length str. finite (derivations g first (take i str))"
    using assms(1) by (simp add: count_agrees_def)
  have fin2: "\<forall>i \<le> length str. derivations g first (take i str) \<noteq> {}
           \<longrightarrow> finite (prod_derivations g rest (drop i str))"
    using assms(2) by (simp add: prod_count_agrees_def)
  have in_range: "i \<le> length str" if "i \<in> set (split_points str)" for i
    using that by (auto simp: split_points_def simp del: upt_Suc)
  have h1: "\<forall>i \<in> set (split_points str).
      0 \<le> ?a i \<and> (\<exists>n. plain_count g n first (take i str) = Some (?a i))"
    using assms(1) in_range by (auto simp: count_agrees_def reference_count_def)
  have h2: "\<forall>i \<in> set (split_points str).
      0 < ?a i \<longrightarrow> (\<exists>n. plain_prod_count g n rest (drop i str) = Some (?b i))"
  proof (intro ballI impI)
    fix i assume i: "i \<in> set (split_points str)" and pos: "0 < ?a i"
    from pos have "derivations g first (take i str) \<noteq> {}"
      by (auto simp: reference_count_def)
    with assms(2) in_range[OF i] show "\<exists>n. plain_prod_count g n rest (drop i str) = Some (?b i)"
      by (auto simp: prod_count_agrees_def)
  qed
  from plain_split_loop_sum[OF h1 h2, of 0] obtain n where
    "plain_split_loop g n first rest str (split_points str) 0 =
       Some (\<Sum>i \<leftarrow> split_points str. ?a i * ?b i)" by auto
  then have "plain_prod_count g (Suc n) (first # rest) str =
       Some (reference_prod_count g (first # rest) str)"
    by (simp add: reference_prod_count_def[of g "first # rest"]
          card_prod_derivations_Cons(2)[OF fin1 fin2]
          reference_count_def reference_prod_count_def)
  with card_prod_derivations_Cons(1)[OF fin1 fin2] show ?thesis
    unfolding prod_count_agrees_def by blast
qed

lemma count_agrees_non_terminal:
  assumes "symbol \<in> non_terminals g"
    and "\<forall>production \<in> set (get_rules g symbol). prod_count_agrees g production str"
  shows "count_agrees g symbol str"
proof -
  have fin: "\<forall>production \<in> set (get_rules g symbol). finite (prod_derivations g production str)"
    using assms(2) by (simp add: prod_count_agrees_def)
  have "\<forall>production \<in> set (get_rules g symbol).
      \<exists>n. plain_prod_count g n production str = Some (reference_prod_count g production str)"
    using assms(2) by (simp add: prod_count_agrees_def)
  from plain_rules_loop_sum[OF this, of 0] obtain n where
    "plain_rules_loop g n (get_rules g symbol) str 0 =
       Some (\<Sum>production \<leftarrow> get_rules g symbol. reference_prod_count g production str)"
    by auto
  then have "plain_count g (Suc n) symbol str = Some (reference_count g symbol str)"
    using assms(1)
    by (simp add: reference_count_def card_derivations_non_terminal(2)[OF assms(1) fin]
          reference_prod_count_def)
  with card_derivations_non_terminal(1)[OF assms(1) fin] show ?thesis
    unfolding count_agrees_def by blast
qed

lemma prod_suffix_agrees:
  assumes nt: "X \<in> non_terminals g"
    and shorter: "\<And>Y s'. length s' < length str \<Longrightarrow> count_agrees g Y s'"
    and corner: "\<And>Y. (X, Y) \<in> left_corner g \<Longrightarrow> count_agrees g Y str"
  shows "pre @ q \<in> set (get_rules g X)
     \<Longrightarrow> length s' < length str \<or> (s' = str \<and> (\<forall>Y \<in> set pre. nullable g Y))
     \<Longrightarrow> prod_count_agrees g q s'"
proof (induction q arbitrary: pre s')
  case Nil
  show ?case by (rule prod_count_agrees_Nil)
next
  case (Cons Y rest)
  show ?case
  proof (rule prod_count_agrees_Cons; intro allI impI)
    fix i assume i: "i \<le> length s'"
    show "count_agrees g Y (take i s')"
    proof (cases "length (take i s') < length str")
      case True
      then show ?thesis by (rule shorter)
    next
      case False
      with Cons.prems(2) have s': "s' = str" and null: "\<forall>Y \<in> set pre. nullable g Y"
        by auto
      from False s' have t: "take i s' = str" by simp
      have "\<forall>j < length pre. nullable g ((pre @ Y # rest) ! j)"
        using null by (simp add: nth_append)
      moreover have "(pre @ Y # rest) ! length pre = Y" by simp
      moreover have "length pre < length (pre @ Y # rest)" by simp
      ultimately have "(X, Y) \<in> left_corner g"
        unfolding left_corner_def using nt Cons.prems(1) by blast
      from corner[OF this] t show ?thesis by simp
    qed
  next
    fix i assume i: "i \<le> length s'" and ne: "derivations g Y (take i s') \<noteq> {}"
    have p: "(pre @ [Y]) @ rest \<in> set (get_rules g X)"
      using Cons.prems(1) by simp
    have "length (drop i s') < length str \<or>
          (drop i s' = str \<and> (\<forall>Z \<in> set (pre @ [Y]). nullable g Z))"
    proof (cases "i = 0")
      case True
      with ne have "nullable g Y" by (simp add: nullable_def)
      with Cons.prems(2) True show ?thesis by auto
    next
      case False
      with i have "length (drop i s') < length s'" by simp
      moreover from Cons.prems(2) have "length s' \<le> length str" by auto
      ultimately show ?thesis by simp
    qed
    from Cons.IH[OF p this] show "prod_count_agrees g rest (drop i s')" .
  qed
qed

lemma count_agrees_all:
  assumes "wf ((left_corner g)\<inverse>)"
  shows "count_agrees g symbol str"
proof (induction "length str" arbitrary: symbol str rule: less_induct)
  case outer: less
  show ?case using assms
  proof (induction symbol rule: wf_induct_rule)
    case inner: (less X)
    show ?case
    proof (cases "X \<in> non_terminals g")
      case False
      then show ?thesis by (rule count_agrees_terminal)
    next
      case True
      have "prod_count_agrees g production str"
        if "production \<in> set (get_rules g X)" for production
      proof (rule prod_suffix_agrees[where pre = "[]" and X = X and str = str])
        show "X \<in> non_terminals g" by (rule True)
        show "count_agrees g Y s'" if "length s' < length str" for Y s'
          using that by (rule outer)
        show "count_agrees g Y str" if "(X, Y) \<in> left_corner g" for Y
          using that by (intro inner) simp
        show "[] @ production \<in> set (get_rules g X)" using that by simp
        show "length str < length str \<or> (str = str \<and> (\<forall>Y \<in> set []. nullable g Y))"
          by simp
      qed
      then have "\<forall>production \<in> set (get_rules g X). prod_count_agrees g production str"
        by blast
      with True show ?thesis by (rule count_agrees_non_terminal)
    qed
  qed
qed

lemma finite_left_corner:
  assumes "finite (dom (rules g))"
  shows "finite (left_corner g)"
proof -
  have "left_corner g \<subseteq>
      (SIGMA non_terminal : dom (rules g). \<Union>production \<in> set (get_rules g non_terminal). set production)"
  proof
    fix x assume x: "x \<in> left_corner g"
    obtain n y where xy: "x = (n, y)" by (cases x)
    from x xy obtain production k where
      p: "production \<in> set (get_rules g n)" and k: "k < length production" "production ! k = y"
      unfolding left_corner_def by auto
    from p have "n \<in> dom (rules g)"
      by (cases "rules g n") (simp_all add: get_rules_def dom_def)
    moreover from k have "y \<in> set production" by auto
    ultimately show "x \<in> (SIGMA non_terminal : dom (rules g).
        \<Union>production \<in> set (get_rules g non_terminal). set production)"
      using p xy by blast
  qed
  moreover have "finite (SIGMA non_terminal : dom (rules g).
      \<Union>production \<in> set (get_rules g non_terminal). set production)"
    using assms by (intro finite_SigmaI) auto
  ultimately show ?thesis by (rule finite_subset)
qed

lemma not_left_recursive_wf:
  assumes "finite (dom (rules g))" "\<not> left_recursive g"
  shows "wf ((left_corner g)\<inverse>)"
proof -
  from assms(2) have "acyclic (left_corner g)"
    by (auto simp: acyclic_def left_recursive_def)
  with finite_left_corner[OF assms(1)] show ?thesis
    by (rule finite_acyclic_wf_converse)
qed

lemma memoized_returns_reference:
  assumes "finite (dom (rules g))" "\<not> left_recursive g"
  shows "\<exists>fuel c'. count_derivations fuel symbol str (new_checker g) =
                      Some (reference_count g symbol str, c')"
proof -
  from count_agrees_all[OF not_left_recursive_wf[OF assms]] obtain n where
    "plain_count g n symbol str = Some (reference_count g symbol str)"
    unfolding count_agrees_def by blast
  from counts_complete(1)[OF this, of "new_checker g"] show ?thesis
    by (auto simp: new_checker_def memo_sound_empty)
qed

lemma memoized_only_reference:
  assumes "finite (dom (rules g))" "\<not> left_recursive g"
    and "count_derivations fuel symbol str (new_checker g) = Some (v, c')"
  shows "v = reference_count g symbol str"
proof -
  from count_agrees_all[OF not_left_recursive_wf[OF assms(1,2)]] obtain n where
    n: "plain_count g n symbol str = Some (reference_count g symbol str)"
    unfolding count_agrees_def by blast
  from counts_sound(1)[OF assms(3)] obtain m where
    "plain_count g m symbol str = Some v"
    by (auto simp: new_checker_def memo_sound_empty)
  from plain_count_unique[OF this n] show ?thesis .
qed

section \<open>Facts about the example grammars\<close>

lemma get_rules_G_ab: "get_rules G_ab ''S'' = [[''a'', ''S'', ''b''], []]"
  by code_simp

lemma nt_G_ab: "non_terminals G_ab = {''S''}"
  by code_simp

lemma nt_G_rec: "non_terminals G_rec = {''S''}"
  by code_simp

lemma nt_G_rhs_only: "non_terminals G_rhs_only = {''S'', ''A''}"
  by code_simp

lemma rules_G_rhs_only: "get_rules G_rhs_only ''A'' = []"
  by code_simp

section \<open>Left recursion: the grammar \<open>S -> S S | a\<close>\<close>

lemma rules_G_SS: "get_rules G_SS ''S'' = [[''S'', ''S''], [''a'']]"
  by code_simp

lemma nt_G_SS: "non_terminals G_SS = {''S''}"
  by code_simp

lemma split_points_Cons: "split_points str = 0 # [1 ..< length str + 1]"
  by (simp add: split_points_def upt_conv_Cons del: upt_Suc)

lemma G_SS_empty_string_diverges:
  assumes "cfg c = G_SS" "memo c (SymKey ''S'' []) = None"
    "memo c (ProdKey [''S'', ''S''] []) = None"
  shows "count_derivations fuel ''S'' [] c = None \<and>
         count_prod_derivations fuel [''S'', ''S''] [] c = None"
proof (induction fuel)
  case 0
  show ?case by simp
next
  case (Suc fuel)
  have "count_rules_loop fuel (get_rules (cfg c) ''S'') [] 0 c = None"
    using Suc assms(1) by (simp add: rules_G_SS)
  then have a: "count_derivations (Suc fuel) ''S'' [] c = None"
    using assms by (simp add: is_terminal_def nt_G_SS)
  have "count_split_loop fuel ''S'' [''S''] [] (split_points []) 0 c = None"
    using Suc by (simp add: split_points_Cons)
  then have b: "count_prod_derivations (Suc fuel) [''S'', ''S''] [] c = None"
    using assms by simp
  from a b show ?case by simp
qed

lemma G_SS_diverges:
  assumes "cfg c = G_SS" "memo c = Map.empty"
  shows "count_derivations fuel ''S'' str c = None"
proof (cases fuel)
  case 0
  then show ?thesis by simp
next
  case (Suc n)
  have e: "count_derivations k ''S'' [] c = None" for k
    using G_SS_empty_string_diverges[of c k] assms by simp
  have "count_prod_derivations n [''S'', ''S''] str c = None"
  proof (cases n)
    case 0
    then show ?thesis by simp
  next
    case (Suc k)
    have "count_split_loop k ''S'' [''S''] str (split_points str) 0 c = None"
      by (simp add: split_points_Cons e)
    then show ?thesis using Suc assms by simp
  qed
  then have "count_rules_loop n (get_rules (cfg c) ''S'') str 0 c = None"
    using assms(1) by (simp add: rules_G_SS)
  then show ?thesis using Suc assms by (simp add: is_terminal_def nt_G_SS)
qed

section \<open>The grammar invariant under \<open>add_rule\<close>\<close>

lemma classify_symbols_rules: "rules (classify_symbols g symbols) = rules g"
  by (induction symbols arbitrary: g) simp_all

lemma classify_symbols_non_terminals:
  "non_terminals (classify_symbols g symbols) =
     non_terminals g \<union> {symbol \<in> set symbols. isupper symbol}"
  by (induction symbols arbitrary: g) auto

lemma classify_symbols_terminals:
  "terminals (classify_symbols g symbols) =
     terminals g \<union> {symbol \<in> set symbols. \<not> isupper symbol}"
  by (induction symbols arbitrary: g) auto

lemma add_rule_rules:
  "rules (add_rule g non_terminal symbols) =
     (rules g)(non_terminal \<mapsto> get_rules g non_terminal @ [symbols])"
  by (simp add: add_rule_def Let_def classify_symbols_rules get_rules_def)

lemma add_rule_non_terminals:
  "non_terminals (add_rule g non_terminal symbols) =
     insert non_terminal (non_terminals g) \<union> {symbol \<in> set symbols. isupper symbol}"
  by (simp add: add_rule_def Let_def classify_symbols_non_terminals)

lemma add_rule_terminals:
  "terminals (add_rule g non_terminal symbols) =
     terminals g \<union> {symbol \<in> set symbols. \<not> isupper symbol}"
  by (simp add: add_rule_def Let_def classify_symbols_terminals)

lemma get_rules_add_rule:
  "get_rules (add_rule g non_terminal symbols) n =
     (if n = non_terminal then get_rules g non_terminal @ [symbols] else get_rules g n)"
  by (simp add: get_rules_def add_rule_rules)

lemma cased_invariant_empty: "cased_invariant empty_cfg"
  by (simp add: cased_invariant_def empty_cfg_def)

lemma cased_invariant_add_rule:
  assumes "cased_invariant g" "isupper non_terminal"
  shows "cased_invariant (add_rule g non_terminal symbols)"
proof -
  let ?g = "add_rule g non_terminal symbols"
  have a: "\<forall>symbol \<in> non_terminals ?g. isupper symbol"
    using assms by (auto simp: cased_invariant_def add_rule_non_terminals)
  have b: "\<forall>symbol \<in> terminals ?g. \<not> isupper symbol"
    using assms by (auto simp: cased_invariant_def add_rule_terminals)
  have c: "dom (rules ?g) \<subseteq> non_terminals ?g"
    using assms by (auto simp: cased_invariant_def add_rule_non_terminals add_rule_rules)
  have d: "set production \<subseteq> non_terminals ?g \<union> terminals ?g"
    if n: "n \<in> dom (rules ?g)" and p: "production \<in> set (get_rules ?g n)" for n production
  proof (cases "production = symbols")
    case True
    then show ?thesis by (auto simp: add_rule_non_terminals add_rule_terminals)
  next
    case False
    with p have p': "production \<in> set (get_rules g n)"
      by (auto simp: get_rules_add_rule split: if_splits)
    then have "n \<in> dom (rules g)"
      by (cases "rules g n") (simp_all add: get_rules_def dom_def)
    with assms(1) p' have "set production \<subseteq> non_terminals g \<union> terminals g"
      by (auto simp: cased_invariant_def)
    then show ?thesis by (auto simp: add_rule_non_terminals add_rule_terminals)
  qed
  from a b c d show ?thesis unfolding cased_invariant_def by blast
qed

lemma cased_invariant_add_rules:
  assumes "cased_invariant g" "\<forall>(non_terminal, symbols) \<in> set calls. isupper non_terminal"
  shows "cased_invariant (add_rules g calls)"
  using assms
proof (induction calls arbitrary: g)
  case Nil
  then show ?case by simp
next
  case (Cons call calls)
  obtain non_terminal symbols where call: "call = (non_terminal, symbols)" by (cases call)
  with Cons.prems have "cased_invariant (add_rule g non_terminal symbols)"
    by (simp add: cased_invariant_add_rule)
  with Cons call show ?case by simp
qed

lemma cased_invariant_grammar_invariant:
  assumes "cased_invariant g"
  shows "grammar_invariant g"
  using assms unfolding cased_invariant_def grammar_invariant_def by blast

section \<open>The example grammar \<open>S -> a S b | epsilon\<close> is not left-recursive\<close>

lemma dom_rules_G_ab: "dom (rules G_ab) = {''S''}"
  by (simp add: G_ab_def add_rule_rules empty_cfg_def)

lemma not_nullable_terminal:
  assumes "symbol \<notin> non_terminals g" "symbol \<noteq> []"
  shows "\<not> nullable g symbol"
  using assms by (simp add: nullable_def derivations_terminal)

lemma left_corner_G_ab: "left_corner G_ab \<subseteq> {(''S'', ''a'')}"
proof
  fix x assume x: "x \<in> left_corner G_ab"
  obtain n y where xy: "x = (n, y)" by (cases x)
  from x xy obtain production k where
    n: "n \<in> non_terminals G_ab" and p: "production \<in> set (get_rules G_ab n)"
    and k: "k < length production" "production ! k = y"
    and null: "\<forall>j < k. nullable G_ab (production ! j)"
    unfolding left_corner_def by auto
  from n have nS: "n = ''S''" by (simp add: nt_G_ab)
  with p k(1) have production: "production = [''a'', ''S'', ''b'']"
    by (auto simp: get_rules_G_ab)
  have a: "\<not> nullable G_ab ''a''"
    by (rule not_nullable_terminal) (simp_all add: nt_G_ab)
  have "k = 0"
  proof (rule ccontr)
    assume "k \<noteq> 0"
    with null have "nullable G_ab (production ! 0)" by simp
    with a production show False by simp
  qed
  with k(2) production nS xy show "x \<in> {(''S'', ''a'')}" by simp
qed

lemma not_left_recursive_G_ab: "\<not> left_recursive G_ab"
proof -
  have "acyclic (left_corner G_ab)"
  proof (rule acyclicI_order[where f = "\<lambda>symbol. if symbol = ''S'' then 1 else (0::nat)"])
    fix a b assume "(a, b) \<in> left_corner G_ab"
    with left_corner_G_ab have "a = ''S''" "b = ''a''" by auto
    then show "(if b = ''S'' then 1 else (0::nat)) < (if a = ''S'' then 1 else 0)" by simp
  qed
  then show ?thesis by (auto simp: acyclic_def left_recursive_def)
qed

section \<open>Adding a production that is already registered\<close>

lemma registered_classified_empty: "registered_classified empty_cfg"
  by (simp add: registered_classified_def get_rules_def empty_cfg_def)

lemma registered_classified_add_rule:
  assumes "registered_classified g"
  shows "registered_classified (add_rule g non_terminal symbols)"
  using assms unfolding registered_classified_def
  by (auto simp: get_rules_add_rule add_rule_non_terminals split: if_splits)

lemma registered_classified_add_rules:
  "registered_classified g \<Longrightarrow> registered_classified (add_rules g calls)"
proof (induction calls arbitrary: g)
  case Nil
  then show ?case by simp
next
  case (Cons call calls)
  obtain non_terminal symbols where "call = (non_terminal, symbols)" by (cases call)
  with Cons show ?case by (simp add: registered_classified_add_rule)
qed

lemma add_rule_registered_non_terminals:
  assumes "registered_classified g" "production \<in> set (get_rules g non_terminal)"
  shows "non_terminals (add_rule g non_terminal production) = non_terminals g"
  using assms unfolding registered_classified_def
  by (auto simp: add_rule_non_terminals)

lemma plain_rules_loop_append:
  "plain_rules_loop g fuel (ps @ [production]) str count =
     (case plain_rules_loop g fuel ps str count of
        None \<Rightarrow> None
      | Some v \<Rightarrow>
          (case plain_prod_count g fuel production str of
             None \<Rightarrow> None
           | Some k \<Rightarrow> Some (v + k)))"
  by (induction ps arbitrary: count) (auto split: option.splits)

text \<open>
  The counts of the symbols below a non-terminal do not change when a production is added
  for that non-terminal, as long as none of them is the non-terminal itself.
\<close>

lemma plain_below:
  fixes N :: symbol and p :: production
  defines "below g \<equiv> {symbol. (N, symbol) \<in> (uses g)\<^sup>+}"
  shows "non_terminals (add_rule g N p) = non_terminals g \<Longrightarrow> N \<notin> below g
       \<Longrightarrow> symbol \<in> below g
       \<Longrightarrow> plain_count (add_rule g N p) fuel symbol str = plain_count g fuel symbol str"
    and "non_terminals (add_rule g N p) = non_terminals g \<Longrightarrow> N \<notin> below g
       \<Longrightarrow> \<forall>production \<in> set ps. set production \<subseteq> below g
       \<Longrightarrow> plain_rules_loop (add_rule g N p) fuel ps str count =
           plain_rules_loop g fuel ps str count"
    and "non_terminals (add_rule g N p) = non_terminals g \<Longrightarrow> N \<notin> below g
       \<Longrightarrow> set production \<subseteq> below g
       \<Longrightarrow> plain_prod_count (add_rule g N p) fuel production str =
           plain_prod_count g fuel production str"
    and "non_terminals (add_rule g N p) = non_terminals g \<Longrightarrow> N \<notin> below g
       \<Longrightarrow> first \<in> below g \<Longrightarrow> set rest \<subseteq> below g
       \<Longrightarrow> plain_split_loop (add_rule g N p) fuel first rest str js count =
           plain_split_loop g fuel first rest str js count"
proof (induction g fuel symbol str and g fuel ps str count and g fuel production str
         and g fuel first rest str js count rule: plain_induct)
  case (1 g symbol str)
  then show ?case by simp
next
  case (2 g fuel symbol str)
  show ?case
  proof (cases "symbol \<in> non_terminals g")
    case False
    with "2.prems"(1) show ?thesis by simp
  next
    case True
    from "2.prems"(2,3) have ne: "symbol \<noteq> N" by auto
    have sub: "\<forall>production \<in> set (get_rules g symbol). set production \<subseteq> below g"
    proof (intro ballI subsetI)
      fix production x assume "production \<in> set (get_rules g symbol)" "x \<in> set production"
      with True have "(symbol, x) \<in> uses g" unfolding uses_def by blast
      with "2.prems"(3) show "x \<in> below g" unfolding below_def by (auto intro: trancl_into_trancl)
    qed
    from "2.IH"[OF _ "2.prems"(1,2) sub] True
    have "plain_rules_loop (add_rule g N p) fuel (get_rules g symbol) str 0 =
          plain_rules_loop g fuel (get_rules g symbol) str 0" by simp
    with True "2.prems"(1) ne show ?thesis by (simp add: get_rules_add_rule)
  qed
next
  case (3 g fuel str count)
  then show ?case by simp
next
  case (4 g fuel production ps str count)
  from "4.prems"(3) have a: "set production \<subseteq> below g"
    and b: "\<forall>production \<in> set ps. set production \<subseteq> below g" by simp_all
  from "4.IH"(1)[OF "4.prems"(1,2) a]
  have e: "plain_prod_count (add_rule g N p) fuel production str =
           plain_prod_count g fuel production str" .
  show ?case
  proof (cases "plain_prod_count g fuel production str")
    case None
    with e show ?thesis by simp
  next
    case (Some k)
    from "4.IH"(2)[OF Some "4.prems"(1,2) b] e Some show ?thesis by simp
  qed
next
  case (5 g production str)
  then show ?case by simp
next
  case (6 g fuel str)
  then show ?case by simp
next
  case (7 g fuel first rest str)
  from "7.prems"(3) have "first \<in> below g" "set rest \<subseteq> below g" by simp_all
  from "7.IH"[OF "7.prems"(1,2) this] show ?case by simp
next
  case (8 g fuel first rest str count)
  then show ?case by simp
next
  case (9 g fuel first rest str i js count)
  from "9.IH"(1)[OF "9.prems"(1,2,3)]
  have e1: "plain_count (add_rule g N p) fuel first (take i str) =
            plain_count g fuel first (take i str)" .
  show ?case
  proof (cases "plain_count g fuel first (take i str)")
    case None
    with e1 show ?thesis by simp
  next
    case (Some first_count)
    show ?thesis
    proof (cases "0 < first_count")
      case True
      from "9.IH"(2)[OF Some True "9.prems"(1,2,4)]
      have e2: "plain_prod_count (add_rule g N p) fuel rest (drop i str) =
                plain_prod_count g fuel rest (drop i str)" .
      show ?thesis
      proof (cases "plain_prod_count g fuel rest (drop i str)")
        case None
        with e1 e2 Some True show ?thesis by simp
      next
        case (Some rest_count)
        note rc = this
        from "9.IH"(3)[OF \<open>plain_count g fuel first (take i str) = Some first_count\<close> True rc
            "9.prems"(1,2,3,4)] e1 e2 rc True
          \<open>plain_count g fuel first (take i str) = Some first_count\<close>
        show ?thesis by simp
      qed
    next
      case False
      from "9.IH"(4)[OF Some False "9.prems"(1,2,3,4)] e1 Some False show ?thesis by simp
    qed
  qed
qed

lemma plain_duplicate:
  assumes nt: "non_terminals (add_rule g N p) = non_terminals g"
    and N: "N \<in> non_terminals g" and p: "p \<in> set (get_rules g N)"
    and nr: "\<not> recursive g N"
    and a: "plain_count g n1 N str = Some a" and b: "plain_prod_count g n2 p str = Some b"
  shows "\<exists>n. plain_count (add_rule g N p) n N str = Some (a + b)"
proof -
  from a N obtain m1 where
    m1: "plain_rules_loop g m1 (get_rules g N) str 0 = Some a"
    by (cases n1) simp_all
  let ?m = "max m1 n2"
  have l: "plain_rules_loop g ?m (get_rules g N) str 0 = Some a"
    by (rule plain_mono(2)[OF _ m1]) simp
  have q: "plain_prod_count g ?m p str = Some b"
    by (rule plain_mono(3)[OF _ b]) simp
  from l q have old: "plain_rules_loop g ?m (get_rules g N @ [p]) str 0 = Some (a + b)"
    by (simp add: plain_rules_loop_append)
  have below: "N \<notin> {symbol. (N, symbol) \<in> (uses g)\<^sup>+}"
    using nr by (simp add: recursive_def)
  have sub: "\<forall>production \<in> set (get_rules g N @ [p]).
      set production \<subseteq> {symbol. (N, symbol) \<in> (uses g)\<^sup>+}"
  proof (intro ballI subsetI)
    fix production x
    assume "production \<in> set (get_rules g N @ [p])" "x \<in> set production"
    with p have "production \<in> set (get_rules g N)" by auto
    with \<open>x \<in> set production\<close> N have "(N, x) \<in> uses g" unfolding uses_def by blast
    then show "x \<in> {symbol. (N, symbol) \<in> (uses g)\<^sup>+}" by auto
  qed
  from plain_below(2)[OF nt below sub] old
  have "plain_rules_loop (add_rule g N p) ?m (get_rules g N @ [p]) str 0 = Some (a + b)"
    by simp
  with N nt have "plain_count (add_rule g N p) (Suc ?m) N str = Some (a + b)"
    by (simp add: get_rules_add_rule)
  then show ?thesis by blast
qed

lemma nt_G_alt: "non_terminals G_alt = {''S'', ''A'', ''B''}"
  by code_simp

lemma rules_G_alt:
  "get_rules G_alt ''S'' = [[''A''], [''B'']]"
  "get_rules G_alt ''A'' = [[''a'']]"
  "get_rules G_alt ''B'' = [[''a'']]"
  by code_simp+

lemma not_recursive_G_alt: "\<not> recursive G_alt ''S''"
proof -
  let ?rank = "\<lambda>symbol. if symbol = ''S'' then 2 else if symbol \<in> {''A'', ''B''} then 1 else (0::nat)"
  have "acyclic (uses G_alt)"
  proof (rule acyclicI_order[where f = ?rank])
    fix n y assume "(n, y) \<in> uses G_alt"
    then obtain production where "n \<in> non_terminals G_alt"
      "production \<in> set (get_rules G_alt n)" "y \<in> set production"
      unfolding uses_def by auto
    then have "(n = ''S'' \<and> y \<in> {''A'', ''B''}) \<or> (n \<in> {''A'', ''B''} \<and> y = ''a'')"
      by (auto simp: nt_G_alt rules_G_alt)
    then show "?rank y < ?rank n" by auto
  qed
  then show ?thesis by (simp add: acyclic_def recursive_def)
qed

section \<open>The claims\<close>

text \<open>
  C1. For a grammar with finitely many left-hand sides that is not left-recursive, and
  for every symbol and string, the memoized \<open>_count_derivations\<close> started on an empty memo
  returns, given enough fuel, and what it returns (with any fuel) is the number of
  derivation trees of the string from the symbol, which is not negative; the recursion
  without the memo returns the same number.
\<close>

theorem count_derivations_equals_reference:
  assumes "finite (dom (rules g))" and "\<not> left_recursive g"
  shows "(\<exists>fuel c'. count_derivations fuel symbol str (new_checker g) =
                      Some (reference_count g symbol str, c')) \<and>
         (\<forall>fuel v c'. count_derivations fuel symbol str (new_checker g) = Some (v, c')
            \<longrightarrow> v = reference_count g symbol str) \<and>
         (\<exists>fuel. plain_count g fuel symbol str = Some (reference_count g symbol str)) \<and>
         0 \<le> reference_count g symbol str"
proof -
  from count_agrees_all[OF not_left_recursive_wf[OF assms]]
  have "\<exists>fuel. plain_count g fuel symbol str = Some (reference_count g symbol str)"
    unfolding count_agrees_def by blast
  moreover have "0 \<le> reference_count g symbol str"
    by (simp add: reference_count_def)
  ultimately show ?thesis
    using memoized_returns_reference[OF assms] memoized_only_reference[OF assms] by blast
qed

theorem count_derivations_equals_reference_witness:
  "finite (dom (rules G_ab)) \<and> \<not> left_recursive G_ab \<and>
   (\<exists>fuel c'. count_derivations fuel ''S'' ''aabb'' (new_checker G_ab) =
                Some (reference_count G_ab ''S'' ''aabb'', c')) \<and>
   reference_count G_ab ''S'' ''aabb'' = 1 \<and>
   map_option fst (count_derivations 20 ''S'' ''aabb'' (new_checker G_ab)) = Some 1"
proof -
  have f: "finite (dom (rules G_ab))" by (simp add: dom_rules_G_ab)
  have ev: "map_option fst (count_derivations 20 ''S'' ''aabb'' (new_checker G_ab)) = Some 1"
    by code_simp
  then obtain c' where
    c': "count_derivations 20 ''S'' ''aabb'' (new_checker G_ab) = Some (1, c')" by auto
  note inst = count_derivations_equals_reference[OF f not_left_recursive_G_ab,
      of "''S''" "''aabb''"]
  from inst c' have "reference_count G_ab ''S'' ''aabb'' = 1" by metis
  with inst f not_left_recursive_G_ab ev show ?thesis by blast
qed

text \<open>
  C2. For a registered start symbol, \<open>check\<close> returns exactly when the count on the
  cleared memo returns; the count is not negative, the returned pair is
  \<open>(count > 1, count)\<close>, and the result line printed is the ambiguous one exactly when
  \<open>count > 1\<close>, the not-ambiguous one exactly when \<open>count = 1\<close>, and the cannot-derive one
  exactly when \<open>count = 0\<close>; the error line is not printed.
\<close>

theorem check_classifies:
  assumes "start_symbol \<in> non_terminals (cfg c)"
  shows "case count_derivations fuel start_symbol str (c\<lparr>memo := Map.empty\<rparr>) of
           None \<Rightarrow> check fuel start_symbol str c = None
         | Some (count, c') \<Rightarrow>
             0 \<le> count \<and>
             (\<exists>outcome.
                check fuel start_symbol str c =
                  Some ((count > 1, count),
                        [Checking str start_symbol, NumParseTrees count, outcome], c') \<and>
                (outcome = ResultAmbiguous \<longleftrightarrow> count > 1) \<and>
                (outcome = ResultNotAmbiguous \<longleftrightarrow> count = 1) \<and>
                (outcome = ResultCannotDerive \<longleftrightarrow> count = 0))"
proof (cases "count_derivations fuel start_symbol str (c\<lparr>memo := Map.empty\<rparr>)")
  case None
  with assms show ?thesis by (simp add: check_def)
next
  case (Some r)
  obtain count c' where r: "r = (count, c')" by (cases r)
  from counts_nonneg(1)[OF Some[unfolded r] memo_nonneg_empty] have "0 \<le> count" by simp
  with assms Some r show ?thesis by (simp add: check_def)
qed

theorem check_classifies_witness:
  "''S'' \<in> non_terminals (cfg (new_checker G_ab)) \<and>
   map_option (\<lambda>(r, out, c'). (r, out)) (check 20 ''S'' ''aabb'' (new_checker G_ab)) =
     Some ((False, 1), [Checking ''aabb'' ''S'', NumParseTrees 1, ResultNotAmbiguous])"
proof -
  have mem: "''S'' \<in> non_terminals (cfg (new_checker G_ab))"
    by (simp add: new_checker_def nt_G_ab)
  have "map_option fst (count_derivations 20 ''S'' ''aabb'' (new_checker G_ab\<lparr>memo := Map.empty\<rparr>))
          = Some 1"
    by code_simp
  then obtain c' where
    "count_derivations 20 ''S'' ''aabb'' (new_checker G_ab\<lparr>memo := Map.empty\<rparr>) = Some (1, c')"
    by auto
  with check_classifies[OF mem, of 20 "''aabb''"] mem show ?thesis by auto
qed

text \<open>
  C3 (as amended). A start symbol outside the non-terminal set makes \<open>check\<close> return at
  once, with no fuel at all (no call of the counter), the memo left empty, the error line
  printed and the pair \<open>(False, 0)\<close>. A registered start symbol whose count is 0 gets the
  same pair \<open>(False, 0)\<close>; only the printed lines differ.
\<close>

theorem check_invalid_start_symbol:
  assumes "start_symbol \<notin> non_terminals (cfg c)"
  shows "check 0 start_symbol str c =
           Some ((False, 0), [ErrNotNonTerminal start_symbol], c\<lparr>memo := Map.empty\<rparr>) \<and>
         check fuel start_symbol str c = check 0 start_symbol str c \<and>
         (\<forall>fuel' registered str' r out c'.
            registered \<in> non_terminals (cfg c) \<longrightarrow>
            check fuel' registered str' c = Some (r, out, c') \<longrightarrow> snd r = 0 \<longrightarrow>
            r = (False, 0) \<and>
            out = [Checking str' registered, NumParseTrees 0, ResultCannotDerive])"
  using assms by (auto simp: check_def split: option.splits)

theorem check_invalid_start_symbol_witness:
  "''T'' \<notin> non_terminals (cfg (new_checker G_rec)) \<and>
   check 7 ''T'' ''b'' (new_checker G_rec) =
     Some ((False, 0), [ErrNotNonTerminal ''T''], new_checker G_rec) \<and>
   map_option (\<lambda>(r, out, c'). (r, out)) (check 7 ''S'' ''b'' (new_checker G_rec)) =
     Some ((False, 0), [Checking ''b'' ''S'', NumParseTrees 0, ResultCannotDerive])"
proof -
  have mem: "''T'' \<notin> non_terminals (cfg (new_checker G_rec))"
    by (simp add: new_checker_def nt_G_rec)
  have ev: "map_option (\<lambda>(r, out, c'). (r, out)) (check 7 ''S'' ''b'' (new_checker G_rec)) =
     Some ((False, 0), [Checking ''b'' ''S'', NumParseTrees 0, ResultCannotDerive])"
    by code_simp
  from check_invalid_start_symbol[where str = "''b''" and fuel = 7, OF mem] ev mem show ?thesis
    by (simp add: new_checker_def)
qed

text \<open>
  The returned pair alone does not tell the two outcomes apart: in \<open>S -> a S | a\<close> the
  unregistered start symbol \<open>T\<close> and the registered \<open>S\<close> with the underivable string
  \<open>b\<close> both give \<open>(False, 0)\<close>.
\<close>

theorem invalid_start_same_pair_as_unparsable:
  "''T'' \<notin> non_terminals (cfg (new_checker G_rec)) \<and>
   ''S'' \<in> non_terminals (cfg (new_checker G_rec)) \<and>
   map_option fst (check 7 ''T'' ''b'' (new_checker G_rec)) = Some (False, 0) \<and>
   map_option fst (check 7 ''S'' ''b'' (new_checker G_rec)) = Some (False, 0)"
  by code_simp

text \<open>
  C4 (as amended). Starting from the empty grammar, after every prefix of a sequence of
  \<open>add_rule\<close> calls whose left-hand sides are all uppercase, the grammar invariant holds.
\<close>

theorem add_rule_keeps_invariant_for_uppercase_lhs:
  assumes "\<forall>(non_terminal, symbols) \<in> set calls. isupper non_terminal"
  shows "grammar_invariant (add_rules empty_cfg (take k calls))"
proof -
  have "\<forall>(non_terminal, symbols) \<in> set (take k calls). isupper non_terminal"
    using assms by (auto dest: in_set_takeD)
  from cased_invariant_add_rules[OF cased_invariant_empty this] show ?thesis
    by (rule cased_invariant_grammar_invariant)
qed

theorem add_rule_keeps_invariant_witness:
  "isupper ''S'' \<and>
   grammar_invariant (add_rules empty_cfg [(''S'', [''a'', ''S'', ''b''])]) \<and>
   grammar_invariant G_ab"
proof -
  have u: "isupper ''S''" by code_simp
  then have h: "\<forall>(non_terminal, symbols) \<in> set [(''S'', [''a'', ''S'', ''b'']), (''S'', [])].
      isupper non_terminal" by simp
  from add_rule_keeps_invariant_for_uppercase_lhs[OF h, of 1]
    add_rule_keeps_invariant_for_uppercase_lhs[OF h, of 2] u
  show ?thesis by (simp add: G_ab_def)
qed

text \<open>
  With a lowercase left-hand side the invariant fails: after \<open>add_rule('a', ['a'])\<close> the
  symbol \<open>a\<close> of the registered production is in both sets.
\<close>

theorem lowercase_lhs_breaks_invariant:
  "\<not> grammar_invariant (add_rules empty_cfg [(''a'', [''a''])]) \<and>
   ''a'' \<in> non_terminals (add_rule empty_cfg ''a'' [''a'']) \<and>
   ''a'' \<in> terminals (add_rule empty_cfg ''a'' [''a'']) \<and>
   get_rules (add_rule empty_cfg ''a'' [''a'']) ''a'' = [[''a'']]"
proof -
  have l: "\<not> isupper ''a''" by code_simp
  have a: "''a'' \<in> non_terminals (add_rule empty_cfg ''a'' [''a''])"
    by (simp add: add_rule_non_terminals)
  have b: "''a'' \<in> terminals (add_rule empty_cfg ''a'' [''a''])"
    using l by (simp add: add_rule_terminals)
  have c: "get_rules (add_rule empty_cfg ''a'' [''a'']) ''a'' = [[''a'']]"
    by (simp add: get_rules_add_rule) (simp add: get_rules_def empty_cfg_def)
  have d: "''a'' \<in> dom (rules (add_rule empty_cfg ''a'' [''a'']))"
    by (simp add: add_rule_rules)
  have "\<not> grammar_invariant (add_rule empty_cfg ''a'' [''a''])"
  proof
    assume "grammar_invariant (add_rule empty_cfg ''a'' [''a''])"
    with d have "\<forall>production \<in> set (get_rules (add_rule empty_cfg ''a'' [''a'']) ''a'').
        \<forall>symbol \<in> set production.
          (symbol \<in> non_terminals (add_rule empty_cfg ''a'' [''a''])) \<noteq>
          (symbol \<in> terminals (add_rule empty_cfg ''a'' [''a'']))"
      unfolding grammar_invariant_def by blast
    with a b c show False by simp
  qed
  with a b c show ?thesis by simp
qed

text \<open>
  C5 (as amended). For the grammar \<open>S -> S S | a\<close>, \<open>check('S', "aaa")\<close> returns with no
  amount of fuel: at split point 0 the production \<open>S S\<close> asks for the count of \<open>S\<close> on the
  empty string, which asks for it again through the same production, without end.
\<close>

theorem check_S_S_a_never_returns:
  "check fuel ''S'' ''aaa'' \<lparr>cfg = G_SS, memo = m\<rparr> = None"
proof -
  have "count_derivations fuel ''S'' ''aaa'' \<lparr>cfg = G_SS, memo = Map.empty\<rparr> = None"
    by (rule G_SS_diverges) simp_all
  then show ?thesis by (simp add: check_def nt_G_SS)
qed

text \<open>There is no amount of fuel with which \<open>check\<close> returns the count 2 here.\<close>

theorem check_S_S_a_count_2_refuted:
  "\<not> (\<exists>fuel out c'. check fuel ''S'' ''aaa'' (new_checker G_SS) = Some ((True, 2), out, c'))"
proof -
  have "count_derivations fuel ''S'' ''aaa'' \<lparr>cfg = G_SS, memo = Map.empty\<rparr> = None" for fuel
    by (rule G_SS_diverges) simp_all
  then show ?thesis by (simp add: check_def nt_G_SS new_checker_def)
qed

text \<open>
  C6 (as amended). Take a grammar built by \<open>add_rule\<close> calls, a production already
  registered for a non-terminal, and add it once more. The rule list of the non-terminal
  is the old list followed by the second copy. When the non-terminal is not recursive and
  the counter on the old grammar returns \<open>a\<close> for the non-terminal and \<open>b\<close> for the
  production, the counter on the new grammar returns for the non-terminal, and what it
  returns is \<open>a + b\<close>.
\<close>

theorem duplicate_production_adds_its_count:
  assumes "g = add_rules empty_cfg calls"
    and "production \<in> set (get_rules g non_terminal)"
    and "\<not> recursive g non_terminal"
    and "count_derivations fuel1 non_terminal str (new_checker g) = Some (a, c1)"
    and "count_prod_derivations fuel2 production str (new_checker g) = Some (b, c2)"
  shows "get_rules (add_rule g non_terminal production) non_terminal =
           get_rules g non_terminal @ [production] \<and>
         (\<exists>fuel c'. count_derivations fuel non_terminal str
                       (new_checker (add_rule g non_terminal production)) = Some (a + b, c')) \<and>
         (\<forall>fuel v c'. count_derivations fuel non_terminal str
                       (new_checker (add_rule g non_terminal production)) = Some (v, c')
            \<longrightarrow> v = a + b)"
proof -
  let ?g' = "add_rule g non_terminal production"
  from assms(1) have rc: "registered_classified g"
    by (simp add: registered_classified_add_rules registered_classified_empty)
  from add_rule_registered_non_terminals[OF rc assms(2)]
  have nt: "non_terminals ?g' = non_terminals g" .
  from rc assms(2) have N: "non_terminal \<in> non_terminals g"
    unfolding registered_classified_def by blast
  from counts_sound(1)[OF assms(4)] obtain n1 where
    n1: "plain_count g n1 non_terminal str = Some a"
    by (auto simp: new_checker_def memo_sound_empty)
  from counts_sound(3)[OF assms(5)] obtain n2 where
    n2: "plain_prod_count g n2 production str = Some b"
    by (auto simp: new_checker_def memo_sound_empty)
  from plain_duplicate[OF nt N assms(2,3) n1 n2] obtain n where
    n: "plain_count ?g' n non_terminal str = Some (a + b)" by blast
  from counts_complete(1)[OF n, of "new_checker ?g'"]
  have ex: "\<exists>fuel c'. count_derivations fuel non_terminal str (new_checker ?g') = Some (a + b, c')"
    by (auto simp: new_checker_def memo_sound_empty)
  have un: "v = a + b"
    if "count_derivations fuel non_terminal str (new_checker ?g') = Some (v, c')" for fuel v c'
  proof -
    from counts_sound(1)[OF that] obtain m where
      "plain_count ?g' m non_terminal str = Some v"
      by (auto simp: new_checker_def memo_sound_empty)
    from plain_count_unique[OF this n] show ?thesis .
  qed
  have "get_rules ?g' non_terminal = get_rules g non_terminal @ [production]"
    by (simp add: get_rules_add_rule)
  with ex un show ?thesis by blast
qed

theorem duplicate_production_adds_its_count_witness:
  "[''A''] \<in> set (get_rules G_alt ''S'') \<and> \<not> recursive G_alt ''S'' \<and>
   map_option fst (count_derivations 9 ''S'' ''a'' (new_checker G_alt)) = Some 2 \<and>
   map_option fst (count_prod_derivations 9 [''A''] ''a'' (new_checker G_alt)) = Some 1 \<and>
   get_rules (add_rule G_alt ''S'' [''A'']) ''S'' = [[''A''], [''B''], [''A'']] \<and>
   (\<exists>fuel c'. count_derivations fuel ''S'' ''a'' (new_checker (add_rule G_alt ''S'' [''A'']))
      = Some (3, c'))"
proof -
  have p: "[''A''] \<in> set (get_rules G_alt ''S'')" by (simp add: rules_G_alt)
  have ea: "map_option fst (count_derivations 9 ''S'' ''a'' (new_checker G_alt)) = Some 2"
    by code_simp
  then obtain c1 where a: "count_derivations 9 ''S'' ''a'' (new_checker G_alt) = Some (2, c1)"
    by auto
  have eb: "map_option fst (count_prod_derivations 9 [''A''] ''a'' (new_checker G_alt)) = Some 1"
    by code_simp
  then obtain c2 where
    b: "count_prod_derivations 9 [''A''] ''a'' (new_checker G_alt) = Some (1, c2)" by auto
  from duplicate_production_adds_its_count[OF G_alt_def p not_recursive_G_alt a b]
    p not_recursive_G_alt ea eb
  show ?thesis by (simp add: rules_G_alt)
qed

text \<open>
  For the recursive \<open>S -> a S | a\<close>, adding \<open>S -> a\<close> a second time takes the count of
  \<open>aa\<close> from 1 to 2, although the production \<open>a\<close> alone counts 0 for \<open>aa\<close>.
\<close>

theorem duplicate_in_recursive_grammar_adds_more:
  "[''a''] \<in> set (get_rules G_rec ''S'') \<and>
   map_option fst (count_derivations 9 ''S'' ''aa'' (new_checker G_rec)) = Some 1 \<and>
   map_option fst (count_prod_derivations 9 [''a''] ''aa'' (new_checker G_rec)) = Some 0 \<and>
   map_option fst (count_derivations 9 ''S'' ''aa'' (new_checker (add_rule G_rec ''S'' [''a''])))
     = Some 2"
  by code_simp

text \<open>
  C7. For a symbol that is not a non-terminal, \<open>_count_derivations\<close> returns 1 when the
  string equals the symbol's whole text and 0 otherwise, needing one unit of fuel; the
  memo entry for the key, if there is one, is assumed to hold what this very computation
  stores (on the memo that \<open>check\<close> has just cleared there is none).
\<close>

theorem terminal_exactness:
  assumes "is_terminal c symbol"
    and "\<forall>v. memo c (SymKey symbol str) = Some v \<longrightarrow> v = (if str = symbol then 1 else 0)"
  shows "\<exists>c'. count_derivations (Suc fuel) symbol str c =
                 Some (if str = symbol then 1 else 0, c') \<and> cfg c' = cfg c"
  using assms by (cases "memo c (SymKey symbol str)") auto

theorem terminal_exactness_witness:
  "is_terminal (new_checker G_rec) ''ab'' \<and>
   (\<forall>v. memo (new_checker G_rec) (SymKey ''ab'' ''ab'') \<noteq> Some v) \<and>
   (\<forall>v. memo (new_checker G_rec) (SymKey ''ab'' ''a'') \<noteq> Some v) \<and>
   (\<exists>c'. count_derivations 1 ''ab'' ''ab'' (new_checker G_rec) = Some (1, c')) \<and>
   (\<exists>c'. count_derivations 1 ''ab'' ''a'' (new_checker G_rec) = Some (0, c'))"
proof -
  have t: "is_terminal (new_checker G_rec) ''ab''"
    by (simp add: is_terminal_def new_checker_def nt_G_rec)
  have m: "\<forall>v. memo (new_checker G_rec) (SymKey ''ab'' s) = Some v \<longrightarrow>
               v = (if s = ''ab'' then 1 else 0)" for s
    by (simp add: new_checker_def)
  from terminal_exactness[where c = "new_checker G_rec" and symbol = "''ab''" and str = "''ab''"
         and fuel = 0, OF t m]
    terminal_exactness[where c = "new_checker G_rec" and symbol = "''ab''" and str = "''a''"
         and fuel = 0, OF t m] t
  show ?thesis by (auto simp: new_checker_def)
qed

text \<open>
  C8. A call of \<open>check\<close> that returns leaves the grammar as it was: the rules map, the
  non-terminal set and the terminal set are the same, and the checker differs from the
  one before in its memo only.
\<close>

theorem check_leaves_grammar_unchanged:
  assumes "check fuel start_symbol str c = Some (r, out, c')"
  shows "rules (cfg c') = rules (cfg c) \<and> non_terminals (cfg c') = non_terminals (cfg c) \<and>
         terminals (cfg c') = terminals (cfg c) \<and> cfg c' = cfg c \<and> c' = c\<lparr>memo := memo c'\<rparr>"
proof -
  have "cfg c' = cfg c"
  proof (cases "start_symbol \<in> non_terminals (cfg c)")
    case True
    with assms obtain count where
      "count_derivations fuel start_symbol str (c\<lparr>memo := Map.empty\<rparr>) = Some (count, c')"
      by (auto simp: check_def split: option.splits)
    from counts_cfg(1)[OF this] show ?thesis by simp
  next
    case False
    with assms show ?thesis by (auto simp: check_def)
  qed
  then show ?thesis by simp
qed

theorem check_leaves_grammar_unchanged_witness:
  "\<exists>r out c'. check 20 ''S'' ''aabb'' (new_checker G_ab) = Some (r, out, c') \<and>
      rules (cfg c') = rules G_ab \<and> non_terminals (cfg c') = non_terminals G_ab \<and>
      terminals (cfg c') = terminals G_ab"
proof -
  have "map_option fst (check 20 ''S'' ''aabb'' (new_checker G_ab)) = Some (False, 1)"
    by code_simp
  then obtain out c' where
    ch: "check 20 ''S'' ''aabb'' (new_checker G_ab) = Some ((False, 1), out, c')"
    by auto
  from check_leaves_grammar_unchanged[OF ch] ch show ?thesis
    by (auto simp: new_checker_def)
qed

text \<open>
  C9. When \<open>check\<close> has returned, calling it again with the same arguments returns the
  same pair, prints the same lines and ends in the same state, whatever the memo holds
  at the start of the second call (\<open>m\<close> is arbitrary; the memo the first call left is
  one case).
\<close>

theorem check_idempotent:
  assumes "check fuel start_symbol str c = Some (r, out, c1)"
  shows "check fuel start_symbol str (c1\<lparr>memo := m\<rparr>) = Some (r, out, c1)"
proof -
  have "cfg c1 = cfg c"
  proof (cases "start_symbol \<in> non_terminals (cfg c)")
    case True
    with assms obtain count where
      "count_derivations fuel start_symbol str (c\<lparr>memo := Map.empty\<rparr>) = Some (count, c1)"
      by (auto simp: check_def split: option.splits)
    from counts_cfg(1)[OF this] show ?thesis by simp
  next
    case False
    with assms show ?thesis by (auto simp: check_def)
  qed
  then have "c1\<lparr>memo := Map.empty\<rparr> = c\<lparr>memo := Map.empty\<rparr>" by simp
  then have "check fuel start_symbol str (c1\<lparr>memo := m\<rparr>) = check fuel start_symbol str c"
    by (simp add: check_def)
  with assms show ?thesis by simp
qed

theorem check_idempotent_witness:
  "\<exists>out c1. check 20 ''S'' ''aabb'' (new_checker G_ab) = Some ((False, 1), out, c1) \<and>
      check 20 ''S'' ''aabb'' c1 = Some ((False, 1), out, c1)"
proof -
  have "map_option fst (check 20 ''S'' ''aabb'' (new_checker G_ab)) = Some (False, 1)"
    by code_simp
  then obtain out c1 where
    ch: "check 20 ''S'' ''aabb'' (new_checker G_ab) = Some ((False, 1), out, c1)"
    by auto
  from check_idempotent[where m = "memo c1", OF ch] ch show ?thesis by auto
qed

text \<open>
  C10. A non-terminal without productions counts 0 for every string: \<open>check\<close> returns
  \<open>(False, 0)\<close> with the cannot-derive line, \<open>_count_derivations\<close> returns 0, and the
  grammar (its rules map included) is unchanged, so no rules entry appears for the symbol.
\<close>

theorem no_productions_count_zero:
  assumes "symbol \<in> non_terminals (cfg c)" and "get_rules (cfg c) symbol = []"
  shows "(\<exists>c'. check (Suc fuel) symbol str c =
                  Some ((False, 0), [Checking str symbol, NumParseTrees 0, ResultCannotDerive], c') \<and>
                cfg c' = cfg c \<and> rules (cfg c') = rules (cfg c)) \<and>
         ((\<forall>v. memo c (SymKey symbol str) = Some v \<longrightarrow> v = 0) \<longrightarrow>
          (\<exists>c'. count_derivations (Suc fuel) symbol str c = Some (0, c') \<and> cfg c' = cfg c))"
  using assms
  by (cases "memo c (SymKey symbol str)") (auto simp: check_def is_terminal_def)

theorem no_productions_count_zero_witness:
  "''A'' \<in> non_terminals (cfg (new_checker G_rhs_only)) \<and>
   get_rules (cfg (new_checker G_rhs_only)) ''A'' = [] \<and>
   rules G_rhs_only ''A'' = None \<and>
   (\<exists>c'. check 1 ''A'' [] (new_checker G_rhs_only) =
       Some ((False, 0), [Checking [] ''A'', NumParseTrees 0, ResultCannotDerive], c') \<and>
       rules (cfg c') ''A'' = None)"
proof -
  have a: "''A'' \<in> non_terminals (cfg (new_checker G_rhs_only))"
    by (simp add: new_checker_def nt_G_rhs_only)
  have b: "get_rules (cfg (new_checker G_rhs_only)) ''A'' = []"
    by (simp add: new_checker_def rules_G_rhs_only)
  have c: "rules G_rhs_only ''A'' = None"
    by code_simp
  from no_productions_count_zero[where fuel = 0 and str = "[]", OF a b] a b c show ?thesis
    by (auto simp: new_checker_def)
qed

end
